theory Spec2Isabelle
  imports Main
begin

section \<open>Key case conversion (src/jsonapi.ts)\<close>

text \<open>
  Keys are JavaScript strings; they are modelled as \<open>string\<close> (lists of characters) over
  ASCII. The two regular expressions of the source only ever match the ASCII letters
  \<open>[a-z]\<close> and \<open>[A-Z]\<close>, and \<open>toUpperCase\<close> is applied to a single \<open>[a-z]\<close> match.
  \<open>toLowerCase\<close> is applied to a whole key; on the ASCII keys considered here it changes
  exactly the letters \<open>A\<close> to \<open>Z\<close>.
\<close>

definition lower_letters :: string where
  "lower_letters = ''abcdefghijklmnopqrstuvwxyz''"

definition upper_letters :: string where
  "upper_letters = ''ABCDEFGHIJKLMNOPQRSTUVWXYZ''"

text \<open>The character classes \<open>[a-z]\<close> and \<open>[A-Z]\<close>.\<close>

definition is_lower :: "char \<Rightarrow> bool" where
  "is_lower c = (c \<in> set lower_letters)"

definition is_upper :: "char \<Rightarrow> bool" where
  "is_upper c = (c \<in> set upper_letters)"

definition toUpperCase_char :: "char \<Rightarrow> char" where
  "toUpperCase_char c =
     (case map_of (zip lower_letters upper_letters) c of Some u \<Rightarrow> u | None \<Rightarrow> c)"

definition toLowerCase_char :: "char \<Rightarrow> char" where
  "toLowerCase_char c =
     (case map_of (zip upper_letters lower_letters) c of Some l \<Rightarrow> l | None \<Rightarrow> c)"

text \<open>
  \<^verbatim>\<open>str.replace(/-([a-z])/g, (_, char) => char.toUpperCase())\<close>:
  a global replace scans from the left; at a hyphen followed by a lowercase letter it emits
  the upper-cased letter and resumes after the match, otherwise it copies one character.
\<close>

fun kebabToCamel :: "string \<Rightarrow> string" where
  "kebabToCamel (h # c # rest) =
     (if h = CHR ''-'' \<and> is_lower c then toUpperCase_char c # kebabToCamel rest
      else h # kebabToCamel (c # rest))"
| "kebabToCamel s = s"

text \<open>
  \<^verbatim>\<open>str.replace(/([a-z])([A-Z])/g, '$1-$2')\<close>: matches do not overlap, so after a match
  of two characters the scan resumes behind the capital.
\<close>

fun insert_hyphens :: "string \<Rightarrow> string" where
  "insert_hyphens (a # b # rest) =
     (if is_lower a \<and> is_upper b then a # CHR ''-'' # b # insert_hyphens rest
      else a # insert_hyphens (b # rest))"
| "insert_hyphens s = s"

text \<open>\<^verbatim>\<open>str.replace(/([a-z])([A-Z])/g, '$1-$2').toLowerCase()\<close>\<close>

definition camelToKebab :: "string \<Rightarrow> string" where
  "camelToKebab s = map toLowerCase_char (insert_hyphens s)"

text \<open>The digits \<open>[0-9]\<close>.\<close>

definition is_digit :: "char \<Rightarrow> bool" where
  "is_digit c = (c \<in> set ''0123456789'')"

text \<open>
  The keys the round-trip property holds for: ASCII letters and digits only, no capital
  at the start, every capital directly preceded by a lowercase letter (so no run of
  capitals and no capital behind a digit). \<open>camel_from p k\<close> reads \<open>k\<close> with \<open>p\<close>
  telling whether the character before it was a lowercase letter.
\<close>

fun camel_from :: "bool \<Rightarrow> string \<Rightarrow> bool" where
  "camel_from prev_lower [] = True"
| "camel_from prev_lower (c # cs) =
     (if is_lower c then camel_from True cs
      else if is_upper c then prev_lower \<and> camel_from False cs
      else is_digit c \<and> camel_from False cs)"

definition single_capital_camel :: "string \<Rightarrow> bool" where
  "single_capital_camel k = camel_from False k"

text \<open>
  The same keys, built the way the specification describes them: a first lowercase word
  followed by capitalised lowercase words. A word that is followed by another one has at
  least two letters, so that no two capitals meet.
\<close>

definition lower_word :: "string \<Rightarrow> bool" where
  "lower_word w = (w \<noteq> [] \<and> (\<forall>c \<in> set w. is_lower c))"

definition capitalize :: "string \<Rightarrow> string" where
  "capitalize w = (case w of [] \<Rightarrow> [] | c # cs \<Rightarrow> toUpperCase_char c # cs)"

fun join_words :: "string list \<Rightarrow> string" where
  "join_words [] = []"
| "join_words (w # ws) = capitalize w @ join_words ws"

fun inner_words :: "string list \<Rightarrow> bool" where
  "inner_words [] = True"
| "inner_words [w] = lower_word w"
| "inner_words (w # ws) = (lower_word w \<and> 2 \<le> length w \<and> inner_words ws)"

lemmas char_defs = is_lower_def is_upper_def is_digit_def toUpperCase_char_def
  toLowerCase_char_def lower_letters_def upper_letters_def

section \<open>Pagination engine (src/pagination.ts)\<close>

text \<open>
  The interfaces of \<^verbatim>\<open>types/common.ts\<close>. \<open>nextPage\<close> and \<open>prevPage\<close> are
  \<^verbatim>\<open>number | null\<close>; \<open>None\<close> stands for \<^verbatim>\<open>null\<close> (and for \<^verbatim>\<open>undefined\<close>, which
  the iterator treats alike). The iterator reads \<^verbatim>\<open>meta?.nextPage\<close>, so a response without
  \<open>meta\<close> is allowed for: \<open>meta\<close> is optional in the model.
\<close>

record PaginationParams =
  number :: int
  size' :: int

record PaginationMeta =
  currentPage :: int
  nextPage :: "int option"
  prevPage :: "int option"
  totalPages :: int
  totalCount :: int

record 'a PaginatedResponse =
  data :: "'a list"
  meta :: "PaginationMeta option"

record PaginationOptions =
  startPage :: "int option"
  pageSize :: "int option"
  maxItems :: "int option"

text \<open>
  A \<^verbatim>\<open>PageFetcher\<close> performs a request: it is a function of the page descriptor that
  reads and changes the outside world \<open>'w\<close> (the remote service, a mock's call counter).
  The claims concern fetchers whose promise resolves; a rejected promise would leave
  \<^verbatim>\<open>next()\<close> before any assignment to the cursor.
\<close>

type_synonym ('a, 'w) PageFetcher = "PaginationParams \<Rightarrow> 'w \<Rightarrow> 'a PaginatedResponse \<times> 'w"

definition DEFAULT_PAGE_SIZE :: int where
  "DEFAULT_PAGE_SIZE = 50"

definition MAX_PAGE_SIZE :: int where
  "MAX_PAGE_SIZE = 1000"

text \<open>
  The closure of \<^verbatim>\<open>createPaginatedIterator\<close>: the constants \<^verbatim>\<open>fetcher\<close>,
  \<^verbatim>\<open>pageSize\<close>, \<^verbatim>\<open>maxItems\<close> and the variables \<^verbatim>\<open>currentPage\<close>, \<^verbatim>\<open>currentItems\<close>,
  \<^verbatim>\<open>currentIndex\<close>, \<^verbatim>\<open>totalReturned\<close>, \<^verbatim>\<open>hasMore\<close>, \<^verbatim>\<open>meta\<close>, each with the prefix
  \<open>it_\<close>. The single \<^verbatim>\<open>iterator\<close> object and the \<^verbatim>\<open>iterable\<close> share this closure;
  \<^verbatim>\<open>[Symbol.asyncIterator]()\<close> returns that one iterator, so iterating the iterable again
  continues from the record the previous iteration left.
  \<open>it_fetched\<close> is not in the source: it logs every call of the fetcher, with the page
  descriptor passed and the response received, so that calls can be counted.
\<close>

record ('a, 'w) iterator =
  it_fetcher :: "('a, 'w) PageFetcher"
  it_pageSize :: int
  it_maxItems :: "int option"
  it_currentPage :: int
  it_currentItems :: "'a list"
  it_currentIndex :: nat
  it_totalReturned :: nat
  it_hasMore :: bool
  it_meta :: "PaginationMeta option"
  it_fetched :: "(PaginationParams \<times> 'a PaginatedResponse) list"

text \<open>\<^verbatim>\<open>v || d\<close> on an optional number: \<^verbatim>\<open>undefined\<close> and \<open>0\<close> are falsy.\<close>

definition or_default :: "int option \<Rightarrow> int \<Rightarrow> int" where
  "or_default v d = (case v of None \<Rightarrow> d | Some n \<Rightarrow> if n = 0 then d else n)"

definition createPaginatedIterator ::
  "('a, 'w) PageFetcher \<Rightarrow> PaginationOptions \<Rightarrow> ('a, 'w) iterator" where
  "createPaginatedIterator fetcher options =
     \<lparr> it_fetcher = fetcher,
       it_pageSize = min (or_default (pageSize options) DEFAULT_PAGE_SIZE) MAX_PAGE_SIZE,
       it_maxItems = maxItems options,
       it_currentPage = or_default (startPage options) 1,
       it_currentItems = [],
       it_currentIndex = 0,
       it_totalReturned = 0,
       it_hasMore = True,
       it_meta = None,
       it_fetched = [] \<rparr>"

text \<open>\<^verbatim>\<open>meta?.nextPage !== null && meta?.nextPage !== undefined\<close>\<close>

definition more_pages :: "PaginationMeta option \<Rightarrow> bool" where
  "more_pages m = (case m of None \<Rightarrow> False | Some mt \<Rightarrow> nextPage mt \<noteq> None)"

text \<open>The body of the \<^verbatim>\<open>while\<close> loop up to the test for an empty page.\<close>

definition fetch_page :: "('a, 'w) iterator \<Rightarrow> 'w \<Rightarrow> ('a, 'w) iterator \<times> 'w" where
  "fetch_page it w =
     (let params = \<lparr> number = it_currentPage it, size' = it_pageSize it \<rparr>;
          (response, w') = it_fetcher it params w
      in (it \<lparr> it_currentItems := data response,
               it_meta := meta response,
               it_currentIndex := 0,
               it_currentPage := it_currentPage it + 1,
               it_hasMore := more_pages (meta response),
               it_fetched := it_fetched it @ [(params, response)] \<rparr>, w'))"

text \<open>\<^verbatim>\<open>currentIndex >= currentItems.length\<close>\<close>

definition exhausted :: "('a, 'w) iterator \<Rightarrow> bool" where
  "exhausted it = (it_currentIndex it \<ge> length (it_currentItems it))"

text \<open>
  \<^verbatim>\<open>while (currentIndex >= currentItems.length && hasMore) { ... }\<close>. The Boolean of the
  result tells whether the loop left \<^verbatim>\<open>next()\<close> through its
  \<^verbatim>\<open>return { done: true, value: undefined }\<close> on an empty page.
\<close>

function fetch_loop :: "('a, 'w) iterator \<Rightarrow> 'w \<Rightarrow> bool \<times> ('a, 'w) iterator \<times> 'w" where
  "fetch_loop it w =
     (if exhausted it \<and> it_hasMore it then
        (case fetch_page it w of (it', w') \<Rightarrow>
           if it_currentItems it' = [] then (True, it', w')
           else fetch_loop it' w')
      else (False, it, w))"
  by pat_completeness auto
termination
  apply (relation "measure (\<lambda>(it, w). if exhausted it \<and> it_hasMore it then 1 else 0)")
   apply (auto simp: exhausted_def fetch_page_def Let_def split: prod.splits)
  done

declare fetch_loop.simps [simp del]

text \<open>\<^verbatim>\<open>maxItems !== undefined && totalReturned >= maxItems\<close>\<close>

definition capped :: "('a, 'w) iterator \<Rightarrow> bool" where
  "capped it =
     (case it_maxItems it of None \<Rightarrow> False | Some m \<Rightarrow> int (it_totalReturned it) \<ge> m)"

text \<open>
  \<^verbatim>\<open>iterator.next()\<close>: \<open>None\<close> is \<^verbatim>\<open>{ done: true, value: undefined }\<close> and \<open>Some item\<close>
  is \<^verbatim>\<open>{ done: false, value: item }\<close>.
\<close>

definition iterator_next ::
  "('a, 'w) iterator \<Rightarrow> 'w \<Rightarrow> 'a option \<times> ('a, 'w) iterator \<times> 'w" where
  "iterator_next it w =
     (if capped it then (None, it, w)
      else (case fetch_loop it w of
              (True, it', w') \<Rightarrow> (None, it', w')
            | (False, it', w') \<Rightarrow>
                if exhausted it' then (None, it', w')
                else (Some (it_currentItems it' ! it_currentIndex it'),
                      it' \<lparr> it_currentIndex := it_currentIndex it' + 1,
                            it_totalReturned := it_totalReturned it' + 1 \<rparr>, w')))"

text \<open>
  \<^verbatim>\<open>for await (const item of this) { results.push(item); }\<close>: the loop asks the shared
  iterator for the next item until it answers \<^verbatim>\<open>done\<close>. On a fetcher that never runs out
  of pages the loop does not end; that is the value \<open>None\<close>.
\<close>

partial_function (option) toArray_loop ::
  "('a, 'w) iterator \<Rightarrow> 'w \<Rightarrow> 'a list \<Rightarrow> ('a list \<times> ('a, 'w) iterator \<times> 'w) option" where
  "toArray_loop it w results =
     (case iterator_next it w of
        (None, it', w') \<Rightarrow> Some (results, it', w')
      | (Some item, it', w') \<Rightarrow> toArray_loop it' w' (results @ [item]))"

declare toArray_loop.simps [code]

definition toArray ::
  "('a, 'w) iterator \<Rightarrow> 'w \<Rightarrow> ('a list \<times> ('a, 'w) iterator \<times> 'w) option" where
  "toArray it w = toArray_loop it w []"

definition collectAll ::
  "('a, 'w) PageFetcher \<Rightarrow> PaginationOptions \<Rightarrow> 'w \<Rightarrow> ('a list \<times> ('a, 'w) iterator \<times> 'w) option" where
  "collectAll fetcher options w = toArray (createPaginatedIterator fetcher options) w"

text \<open>
  \<^verbatim>\<open>take(fetcher, count, options)\<close>; the spread \<^verbatim>\<open>{ ...options, maxItems: count }\<close> is a
  record update.
\<close>

definition take' ::
  "('a, 'w) PageFetcher \<Rightarrow> int \<Rightarrow> PaginationOptions \<Rightarrow> 'w \<Rightarrow> ('a list \<times> ('a, 'w) iterator \<times> 'w) option" where
  "take' fetcher count options w =
     toArray (createPaginatedIterator fetcher (options \<lparr> maxItems := Some count \<rparr>)) w"

text \<open>All items of the pages fetched so far, in the order of the calls.\<close>

definition all_items :: "(PaginationParams \<times> 'a PaginatedResponse) list \<Rightarrow> 'a list" where
  "all_items fetched = concat (map (\<lambda>(p, r). data r) fetched)"

text \<open>
  What holds of the cursor between two calls of \<^verbatim>\<open>next()\<close>, with \<open>acc\<close> the items handed
  out so far: the buffer is the last page fetched, \<^verbatim>\<open>totalReturned\<close> counts the items of
  the earlier pages plus the consumed part of the buffer, the items handed out are the
  first \<^verbatim>\<open>totalReturned\<close> items of the pages, the cap is not exceeded, and the pages
  before the last one did not suffice to reach the cap.
\<close>

definition drain_inv :: "('a, 'w) iterator \<Rightarrow> 'a list \<Rightarrow> bool" where
  "drain_inv it acc =
     (all_items (it_fetched it) = all_items (butlast (it_fetched it)) @ it_currentItems it
      \<and> it_totalReturned it = length (all_items (butlast (it_fetched it))) + it_currentIndex it
      \<and> it_currentIndex it \<le> length (it_currentItems it)
      \<and> acc = take (it_totalReturned it) (all_items (it_fetched it))
      \<and> (case it_maxItems it of None \<Rightarrow> True
          | Some m \<Rightarrow> int (it_totalReturned it) \<le> max m 0
               \<and> (it_fetched it = [] \<or> int (length (all_items (butlast (it_fetched it)))) < m)))"

definition drained :: "('a, 'w) iterator \<Rightarrow> bool" where
  "drained it = (capped it \<or> it_totalReturned it = length (all_items (it_fetched it)))"

text \<open>
  The first \<open>k\<close> calls of a fetcher for the successive pages from page \<open>p\<close> on, of size
  \<open>ps\<close>, beginning in the world \<open>w\<close>: the page descriptors passed with the responses
  received, and the world after the last call. This is what a client sees that asks
  for page after page, whatever it does with the responses.
\<close>

primrec fetch_run ::
  "('a, 'w) PageFetcher \<Rightarrow> int \<Rightarrow> int \<Rightarrow> 'w \<Rightarrow> nat
     \<Rightarrow> (PaginationParams \<times> 'a PaginatedResponse) list \<times> 'w" where
  "fetch_run f ps p w 0 = ([], w)"
| "fetch_run f ps p w (Suc k) =
     (case fetch_run f ps p w k of
        (run, w') \<Rightarrow>
          (case f \<lparr> number = p + int k, size' = ps \<rparr> w' of
             (r, w'') \<Rightarrow> (run @ [(\<lparr> number = p + int k, size' = ps \<rparr>, r)], w'')))"

text \<open>
  What holds of the log between two calls of \<^verbatim>\<open>next()\<close> of an iterator made for the
  fetcher \<open>f\<close>, page size \<open>ps\<close> and start page \<open>p\<close> in the world \<open>w0\<close>: the calls made are
  the first calls of \<open>f\<close> for the successive pages, every page before the last one
  fetched held items and announced a next page, and \<^verbatim>\<open>hasMore\<close> and the buffer are
  those of the last page fetched.
\<close>

definition run_inv ::
  "('a, 'w) PageFetcher \<Rightarrow> int \<Rightarrow> int \<Rightarrow> 'w \<Rightarrow> ('a, 'w) iterator \<Rightarrow> 'w \<Rightarrow> bool" where
  "run_inv f ps p w0 it w =
     (it_fetcher it = f \<and> it_pageSize it = ps
      \<and> it_currentPage it = p + int (length (it_fetched it))
      \<and> fetch_run f ps p w0 (length (it_fetched it)) = (it_fetched it, w)
      \<and> (\<forall>(q, r) \<in> set (butlast (it_fetched it)). data r \<noteq> [] \<and> more_pages (meta r))
      \<and> (it_fetched it = [] \<longrightarrow> it_hasMore it)
      \<and> (it_fetched it \<noteq> [] \<longrightarrow>
            it_hasMore it = more_pages (meta (snd (last (it_fetched it))))
            \<and> it_currentItems it = data (snd (last (it_fetched it)))))"

text \<open>Why \<^verbatim>\<open>next()\<close> answered \<^verbatim>\<open>done\<close>: the cap, the last page, or an empty page.\<close>

definition stopped :: "('a, 'w) iterator \<Rightarrow> bool" where
  "stopped it =
     (capped it \<or> (exhausted it \<and> \<not> it_hasMore it)
      \<or> (it_currentItems it = [] \<and> it_fetched it \<noteq> []))"

subsection \<open>Fetch stubs of the test suite\<close>

definition no_options :: PaginationOptions where
  "no_options = \<lparr> startPage = None, pageSize = None, maxItems = None \<rparr>"

text \<open>Two pages of two items, as in the test \<^verbatim>\<open>should iterate through all pages\<close>.\<close>

definition two_page_fetcher :: "(nat, unit) PageFetcher" where
  "two_page_fetcher p w =
     (if number p = 1
      then (\<lparr> data = [1, 2],
              meta = Some \<lparr> currentPage = 1, nextPage = Some 2, prevPage = None,
                            totalPages = 2, totalCount = 4 \<rparr> \<rparr>, w)
      else (\<lparr> data = [3, 4],
              meta = Some \<lparr> currentPage = 2, nextPage = None, prevPage = Some 1,
                            totalPages = 2, totalCount = 4 \<rparr> \<rparr>, w))"

text \<open>Thirty items on ten pages of three: page \<open>n\<close> holds \<open>3n - 2\<close>, \<open>3n - 1\<close>, \<open>3n\<close>.\<close>

definition thirty_item_fetcher :: "(int, unit) PageFetcher" where
  "thirty_item_fetcher p w =
     (\<lparr> data = [3 * number p - 2, 3 * number p - 1, 3 * number p],
        meta = Some \<lparr> currentPage = number p,
                      nextPage = (if number p < 10 then Some (number p + 1) else None),
                      prevPage = (if 1 < number p then Some (number p - 1) else None),
                      totalPages = 10, totalCount = 30 \<rparr> \<rparr>, w)"

text \<open>
  Thirty items on fifteen pages of two: page \<open>n\<close> holds \<open>2n - 1\<close> and \<open>2n\<close>. The world
  counts the calls.
\<close>

definition thirty_in_twos_fetcher :: "(int, nat) PageFetcher" where
  "thirty_in_twos_fetcher p calls =
     (\<lparr> data = [2 * number p - 1, 2 * number p],
        meta = Some \<lparr> currentPage = number p,
                      nextPage = (if number p < 15 then Some (number p + 1) else None),
                      prevPage = (if 1 < number p then Some (number p - 1) else None),
                      totalPages = 15, totalCount = 30 \<rparr> \<rparr>, Suc calls)"

text \<open>
  A first page that is empty although it announces a second page, and a second page with
  one item.
\<close>

definition empty_first_page_fetcher :: "(nat, unit) PageFetcher" where
  "empty_first_page_fetcher p w =
     (if number p = 1
      then (\<lparr> data = [],
              meta = Some \<lparr> currentPage = 1, nextPage = Some 2, prevPage = None,
                            totalPages = 2, totalCount = 1 \<rparr> \<rparr>, w)
      else (\<lparr> data = [7],
              meta = Some \<lparr> currentPage = 2, nextPage = None, prevPage = Some 1,
                            totalPages = 2, totalCount = 1 \<rparr> \<rparr>, w))"

section \<open>JavaScript values\<close>

text \<open>
  Response bodies, filter values and query parameters are values of type \<^verbatim>\<open>unknown\<close>:
  what \<^verbatim>\<open>JSON.parse\<close> produces, or plain data of that shape built by the caller (no
  functions, no class instances). \<open>JObj\<close> lists the own properties of a plain object in
  the order \<^verbatim>\<open>Object.entries\<close> enumerates them, with distinct names; its prototype is
  \<^verbatim>\<open>Object.prototype\<close>. \<open>JNum n\<close> stands for the JavaScript number \<open>n\<close> only for safe
  integers, of magnitude at most \<open>2^53 - 1\<close>: these are exact and print in plain decimal
  notation. Larger integers and fractions are outside the model; the functions below
  only test numbers for zero and print them.
\<close>

datatype jsval =
    JUndefined
  | JNull
  | JBool bool
  | JNum int
  | JStr string
  | JArr "jsval list"
  | JObj "(string \<times> jsval) list"

text \<open>A thrown exception. Every exception these functions raise themselves is a \<^verbatim>\<open>TypeError\<close>.\<close>

datatype js_exn = TypeError

text \<open>Whether a computation returned or threw.\<close>

fun returns :: "'e + 'a \<Rightarrow> bool" where
  "returns (Inr v) = True"
| "returns (Inl e) = False"

text \<open>\<^verbatim>\<open>v === null || v === undefined\<close>\<close>

definition nullish :: "jsval \<Rightarrow> bool" where
  "nullish v = (v = JUndefined \<or> v = JNull)"

text \<open>Truthiness, as tested by \<^verbatim>\<open>if (v)\<close>, \<^verbatim>\<open>!v\<close> and \<^verbatim>\<open>v || d\<close>.\<close>

fun truthy :: "jsval \<Rightarrow> bool" where
  "truthy JUndefined = False"
| "truthy JNull = False"
| "truthy (JBool b) = b"
| "truthy (JNum n) = (n \<noteq> 0)"
| "truthy (JStr s) = (s \<noteq> [])"
| "truthy (JArr xs) = True"
| "truthy (JObj kvs) = True"

text \<open>\<^verbatim>\<open>Array.isArray(v)\<close> and \<^verbatim>\<open>typeof v === 'object' && !Array.isArray(v)\<close> for \<open>v\<close> not null.\<close>

fun isArray :: "jsval \<Rightarrow> bool" where
  "isArray (JArr xs) = True"
| "isArray v = False"

fun isPlainObject :: "jsval \<Rightarrow> bool" where
  "isPlainObject (JObj kvs) = True"
| "isPlainObject v = False"

text \<open>Reading a property of an object: an absent property reads as \<^verbatim>\<open>undefined\<close>.\<close>

definition obj_get :: "(string \<times> jsval) list \<Rightarrow> string \<Rightarrow> jsval" where
  "obj_get kvs k = (case map_of kvs k of None \<Rightarrow> JUndefined | Some v \<Rightarrow> v)"

text \<open>\<^verbatim>\<open>k in obj\<close> and \<^verbatim>\<open>Object.keys\<close> for the own properties of a plain object.\<close>

definition has_key :: "(string \<times> 'v) list \<Rightarrow> string \<Rightarrow> bool" where
  "has_key kvs k = (k \<in> set (map fst kvs))"

text \<open>
  An array index is a property name that is the decimal numeral, without leading zeros,
  of an integer below \<open>2^32 - 1\<close>. JavaScript enumerates the array indices of an object
  first, in ascending order, and then the other names in the order of their creation.
\<close>

definition digit_value :: "char \<Rightarrow> nat" where
  "digit_value c = (case map_of (zip ''0123456789'' [0..<10]) c of None \<Rightarrow> 0 | Some d \<Rightarrow> d)"

definition numeral_value :: "string \<Rightarrow> nat" where
  "numeral_value k = foldl (\<lambda>n c. 10 * n + digit_value c) 0 k"

fun array_index :: "string \<Rightarrow> nat option" where
  "array_index [] = None"
| "array_index (c # cs) =
     (if c \<in> set ''0123456789'' \<and> list_all (\<lambda>x. x \<in> set ''0123456789'') cs
         \<and> (c = CHR ''0'' \<longrightarrow> cs = []) \<and> numeral_value (c # cs) < 4294967295
      then Some (numeral_value (c # cs)) else None)"

text \<open>A new property with array index \<open>i\<close> takes its place among the array indices.\<close>

fun insert_index :: "nat \<Rightarrow> string \<Rightarrow> 'v \<Rightarrow> (string \<times> 'v) list \<Rightarrow> (string \<times> 'v) list" where
  "insert_index i k v [] = [(k, v)]"
| "insert_index i k v ((k', v') # kvs) =
     (case array_index k' of
        Some j \<Rightarrow> if j < i then (k', v') # insert_index i k v kvs else (k, v) # (k', v') # kvs
      | None \<Rightarrow> (k, v) # (k', v') # kvs)"

text \<open>An existing property keeps its place and gets the new value.\<close>

fun replace_prop :: "string \<Rightarrow> 'v \<Rightarrow> (string \<times> 'v) list \<Rightarrow> (string \<times> 'v) list" where
  "replace_prop k v [] = []"
| "replace_prop k v ((k', v') # kvs) =
     (if k' = k then (k, v) # kvs else (k', v') # replace_prop k v kvs)"

text \<open>
  The assignment \<^verbatim>\<open>result[k] = v\<close> on a plain object \<^verbatim>\<open>result\<close> that the library built.
  The name \<^verbatim>\<open>__proto__\<close> is the accessor of \<^verbatim>\<open>Object.prototype\<close>: assigning to it
  sets the prototype (for an object or \<^verbatim>\<open>null\<close>) or does nothing, and creates no
  property. Any other name sets an existing property or creates a new one, among the
  array indices or behind the other names. The prototype of a result is not part of the
  model: a result is its own properties.
\<close>

definition obj_set :: "(string \<times> 'v) list \<Rightarrow> string \<Rightarrow> 'v \<Rightarrow> (string \<times> 'v) list" where
  "obj_set r k v =
     (if k = ''__proto__'' then r
      else if has_key r k then replace_prop k v r
      else case array_index k of
             Some i \<Rightarrow> insert_index i k v r
           | None \<Rightarrow> r @ [(k, v)])"

text \<open>
  \<^verbatim>\<open>v.k\<close> for a value that is neither \<^verbatim>\<open>null\<close> nor \<^verbatim>\<open>undefined\<close>. The names read in
  this library (\<^verbatim>\<open>id\<close>, \<^verbatim>\<open>type\<close>, \<^verbatim>\<open>attributes\<close>, \<^verbatim>\<open>relationships\<close>, \<^verbatim>\<open>data\<close>,
  \<^verbatim>\<open>meta\<close>, \<^verbatim>\<open>included\<close>, \<^verbatim>\<open>errors\<close>, \<^verbatim>\<open>message\<close>, \<^verbatim>\<open>detail\<close>, \<^verbatim>\<open>title\<close>, the five
  pagination keys, the four filter operators) are not properties of strings, numbers,
  booleans or arrays nor of \<^verbatim>\<open>Object.prototype\<close>, so they read as \<^verbatim>\<open>undefined\<close> unless
  they are own properties of an object.
\<close>

fun prop_of :: "jsval \<Rightarrow> string \<Rightarrow> jsval" where
  "prop_of (JObj kvs) k = obj_get kvs k"
| "prop_of v k = JUndefined"

text \<open>\<^verbatim>\<open>v.k\<close>: reading a property of \<^verbatim>\<open>null\<close> or \<^verbatim>\<open>undefined\<close> throws.\<close>

definition get_prop :: "jsval \<Rightarrow> string \<Rightarrow> js_exn + jsval" where
  "get_prop v k = (if nullish v then Inl TypeError else Inr (prop_of v k))"

text \<open>\<^verbatim>\<open>v?.k\<close>: optional chaining answers \<^verbatim>\<open>undefined\<close> for \<^verbatim>\<open>null\<close> and \<^verbatim>\<open>undefined\<close>.\<close>

definition opt_prop :: "jsval \<Rightarrow> string \<Rightarrow> jsval" where
  "opt_prop v k = (if nullish v then JUndefined else prop_of v k)"

text \<open>\<^verbatim>\<open>v?.[0]\<close>: the first element of an array, the first character of a string.\<close>

fun opt_first :: "jsval \<Rightarrow> jsval" where
  "opt_first (JArr xs) = (case xs of [] \<Rightarrow> JUndefined | x # _ \<Rightarrow> x)"
| "opt_first (JStr s) = (case s of [] \<Rightarrow> JUndefined | c # _ \<Rightarrow> JStr [c])"
| "opt_first (JObj kvs) = obj_get kvs ''0''"
| "opt_first v = JUndefined"

text \<open>\<^verbatim>\<open>a || b\<close> and \<^verbatim>\<open>a ?? b\<close>\<close>

definition js_or :: "jsval \<Rightarrow> jsval \<Rightarrow> jsval" where
  "js_or a b = (if truthy a then a else b)"

definition js_coalesce :: "jsval \<Rightarrow> jsval \<Rightarrow> jsval" where
  "js_coalesce a b = (if nullish a then b else a)"

subsection \<open>Printing\<close>

definition digit_char :: "nat \<Rightarrow> char" where
  "digit_char d = ''0123456789'' ! d"

function show_nat :: "nat \<Rightarrow> string" where
  "show_nat n = (if n < 10 then [digit_char n] else show_nat (n div 10) @ [digit_char (n mod 10)])"
  by pat_completeness auto
termination
  by (relation "measure id") auto

declare show_nat.simps [simp del]

definition show_int :: "int \<Rightarrow> string" where
  "show_int i = (if i < 0 then CHR ''-'' # show_nat (nat (- i)) else show_nat (nat i))"

text \<open>\<^verbatim>\<open>parts.join(',')\<close> on strings.\<close>

fun join_comma :: "string list \<Rightarrow> string" where
  "join_comma [] = []"
| "join_comma [s] = s"
| "join_comma (s # ss) = s @ '','' @ join_comma ss"

text \<open>
  \<^verbatim>\<open>String(v)\<close>, which is also what the \<^verbatim>\<open>Error\<close> constructor applies to its message.
  A plain object prints through \<^verbatim>\<open>Object.prototype.toString\<close> as \<^verbatim>\<open>[object Object]\<close>;
  when it has an own property \<^verbatim>\<open>toString\<close>, which is data and cannot be called, the
  conversion finds no primitive value and throws a \<^verbatim>\<open>TypeError\<close>. An array prints as
  \<^verbatim>\<open>v.join(',')\<close>: its elements printed in order and separated by commas, where
  \<^verbatim>\<open>null\<close> and \<^verbatim>\<open>undefined\<close> elements print as the empty string; the first element
  that cannot be printed throws.
\<close>

fun js_String :: "jsval \<Rightarrow> js_exn + string"
  and join_elements :: "jsval list \<Rightarrow> js_exn + string list" where
  "js_String JUndefined = Inr ''undefined''"
| "js_String JNull = Inr ''null''"
| "js_String (JBool b) = Inr (if b then ''true'' else ''false'')"
| "js_String (JNum n) = Inr (show_int n)"
| "js_String (JStr s) = Inr s"
| "js_String (JArr xs) =
     (case join_elements xs of Inl e \<Rightarrow> Inl e | Inr parts \<Rightarrow> Inr (join_comma parts))"
| "js_String (JObj kvs) =
     (if has_key kvs ''toString'' then Inl TypeError else Inr ''[object Object]'')"
| "join_elements [] = Inr []"
| "join_elements (x # xs) =
     (case (if x = JUndefined \<or> x = JNull then Inr [] else js_String x) of
        Inl e \<Rightarrow> Inl e
      | Inr s \<Rightarrow> (case join_elements xs of Inl e \<Rightarrow> Inl e | Inr ss \<Rightarrow> Inr (s # ss)))"

text \<open>\<^verbatim>\<open>value.join(',')\<close> on an array.\<close>

definition array_join :: "jsval list \<Rightarrow> js_exn + string" where
  "array_join xs =
     (case join_elements xs of Inl e \<Rightarrow> Inl e | Inr parts \<Rightarrow> Inr (join_comma parts))"

text \<open>\<^verbatim>\<open>Object.entries(v)\<close>: the indexed elements of an array or characters of a string.\<close>

definition index_keys :: "nat \<Rightarrow> string list" where
  "index_keys n = map show_nat [0..<n]"

fun object_entries :: "jsval \<Rightarrow> js_exn + (string \<times> jsval) list" where
  "object_entries JUndefined = Inl TypeError"
| "object_entries JNull = Inl TypeError"
| "object_entries (JObj kvs) = Inr kvs"
| "object_entries (JArr xs) = Inr (zip (index_keys (length xs)) xs)"
| "object_entries (JStr s) = Inr (zip (index_keys (length s)) (map (\<lambda>c. JStr [c]) s))"
| "object_entries v = Inr []"

section \<open>Error classes (src/errors.ts)\<close>

text \<open>
  The class of an error object, with the fields a subclass adds: the parsed \<^verbatim>\<open>errors\<close>
  of a validation error, \<^verbatim>\<open>retryAfter\<close> of a rate-limit error, \<^verbatim>\<open>timeout\<close> of a timeout
  error (the \<^verbatim>\<open>cause\<close> of a network error, some \<^verbatim>\<open>Error\<close> object, is not kept).
  \<^verbatim>\<open>e instanceof ITGlueRateLimitError\<close> asks for the class.
\<close>

datatype error_class =
    ITGlueError
  | ITGlueAuthenticationError
  | ITGlueNotFoundError
  | ITGlueValidationError jsval
  | ITGlueRateLimitError "int option"
  | ITGlueServerError
  | ITGlueNetworkError
  | ITGlueTimeoutError int

record itglue_error =
  error_class :: error_class
  message :: string
  statusCode :: int
  response :: jsval
  url :: "string option"
  method' :: "string option"

text \<open>
  The constructors. \<^verbatim>\<open>super(message, ...)\<close> ends in \<^verbatim>\<open>Error(message)\<close>, which
  converts a message other than \<^verbatim>\<open>undefined\<close> with \<^verbatim>\<open>String\<close> and throws when that
  throws; no error object is built then.
\<close>

definition new_ITGlueError ::
  "jsval \<Rightarrow> int \<Rightarrow> jsval \<Rightarrow> string option \<Rightarrow> string option \<Rightarrow> js_exn + itglue_error" where
  "new_ITGlueError msg status resp u m =
     (case (if msg = JUndefined then Inr [] else js_String msg) of
        Inl e \<Rightarrow> Inl e
      | Inr s \<Rightarrow>
          Inr \<lparr> error_class = ITGlueError, message = s, statusCode = status, response = resp,
                url = u, method' = m \<rparr>)"

text \<open>A default parameter value \<^verbatim>\<open>message: string = '...'\<close> replaces \<^verbatim>\<open>undefined\<close>.\<close>

definition default_param :: "jsval \<Rightarrow> string \<Rightarrow> jsval" where
  "default_param msg d = (if msg = JUndefined then JStr d else msg)"

text \<open>What a subclass constructor does after \<^verbatim>\<open>super(...)\<close> returned.\<close>

definition with_class :: "error_class \<Rightarrow> js_exn + itglue_error \<Rightarrow> js_exn + itglue_error" where
  "with_class c r = (case r of Inl e \<Rightarrow> Inl e | Inr err \<Rightarrow> Inr (err \<lparr> error_class := c \<rparr>))"

definition new_ITGlueAuthenticationError ::
  "jsval \<Rightarrow> int \<Rightarrow> jsval \<Rightarrow> string option \<Rightarrow> string option \<Rightarrow> js_exn + itglue_error" where
  "new_ITGlueAuthenticationError msg status resp u m =
     with_class ITGlueAuthenticationError
       (new_ITGlueError (default_param msg ''Authentication failed. Check your API key.'')
          status resp u m)"

definition new_ITGlueNotFoundError ::
  "jsval \<Rightarrow> jsval \<Rightarrow> string option \<Rightarrow> string option \<Rightarrow> js_exn + itglue_error" where
  "new_ITGlueNotFoundError msg resp u m =
     with_class ITGlueNotFoundError
       (new_ITGlueError (default_param msg ''Resource not found.'') 404 resp u m)"

definition new_ITGlueValidationError ::
  "jsval \<Rightarrow> jsval \<Rightarrow> jsval \<Rightarrow> string option \<Rightarrow> string option \<Rightarrow> js_exn + itglue_error" where
  "new_ITGlueValidationError msg errs resp u m =
     with_class (ITGlueValidationError errs)
       (new_ITGlueError (default_param msg ''Validation failed.'') 422 resp u m)"

definition new_ITGlueRateLimitError ::
  "jsval \<Rightarrow> int option \<Rightarrow> jsval \<Rightarrow> string option \<Rightarrow> string option \<Rightarrow> js_exn + itglue_error" where
  "new_ITGlueRateLimitError msg retryAfter resp u m =
     with_class (ITGlueRateLimitError retryAfter)
       (new_ITGlueError (default_param msg ''Rate limit exceeded.'') 429 resp u m)"

definition new_ITGlueServerError ::
  "jsval \<Rightarrow> int \<Rightarrow> jsval \<Rightarrow> string option \<Rightarrow> string option \<Rightarrow> js_exn + itglue_error" where
  "new_ITGlueServerError msg status resp u m =
     with_class ITGlueServerError
       (new_ITGlueError (default_param msg ''Server error occurred.'') status resp u m)"

text \<open>
  \<^verbatim>\<open>errors?.[0]?.detail || errors?.[0]?.title || responseBody?.message\<close>, the message
  picked from the response body.
\<close>

definition response_message :: "jsval \<Rightarrow> jsval" where
  "response_message resp =
     (let errors = opt_prop resp ''errors''
      in js_or (js_or (opt_prop (opt_first errors) ''detail'')
                      (opt_prop (opt_first errors) ''title''))
               (opt_prop resp ''message''))"

definition createErrorFromResponse ::
  "int \<Rightarrow> jsval \<Rightarrow> string option \<Rightarrow> string option \<Rightarrow> js_exn + itglue_error" where
  "createErrorFromResponse status resp u m =
     (let errors = opt_prop resp ''errors'';
          msg = response_message resp
      in if status = 401 \<or> status = 403 then
           new_ITGlueAuthenticationError
             (js_or msg (JStr ''Authentication failed. Check your API key.'')) status resp u m
         else if status = 404 then
           new_ITGlueNotFoundError (js_or msg (JStr ''Resource not found.'')) resp u m
         else if status = 422 then
           new_ITGlueValidationError (js_or msg (JStr ''Validation failed.''))
             (js_or errors (JArr [])) resp u m
         else if status = 429 then
           new_ITGlueRateLimitError (js_or msg (JStr ''Rate limit exceeded.'')) None resp u m
         else if status \<ge> 500 then
           new_ITGlueServerError (js_or msg (JStr ''Server error occurred.'')) status resp u m
         else
           new_ITGlueError (js_or msg (JStr (''HTTP error '' @ show_int status))) status resp u m)"

text \<open>A response body whose first error has an object with a property \<open>toString\<close> as detail.\<close>

definition unprintable_detail_body :: jsval where
  "unprintable_detail_body =
     JObj [(''errors'', JArr [JObj [(''detail'', JObj [(''toString'', JNum 1)])]])]"

section \<open>Retrying requests (src/http.ts)\<close>

text \<open>
  What a request can throw: one of the library's errors or any other \<^verbatim>\<open>Error\<close> (for
  instance a \<^verbatim>\<open>SyntaxError\<close> of \<^verbatim>\<open>response.json()\<close>), kept by its message.
\<close>

datatype js_error = ITGlue itglue_error | OtherError string

text \<open>
  The predicate \<^verbatim>\<open>requestWithRetry\<close> passes as \<^verbatim>\<open>shouldRetry\<close>:
  \<^verbatim>\<open>error instanceof ITGlueRateLimitError || error instanceof ITGlueServerError\<close>.
\<close>

fun instanceof_ITGlueRateLimitError :: "js_error \<Rightarrow> bool" where
  "instanceof_ITGlueRateLimitError (ITGlue e) =
     (case error_class e of ITGlueRateLimitError r \<Rightarrow> True | _ \<Rightarrow> False)"
| "instanceof_ITGlueRateLimitError (OtherError s) = False"

fun instanceof_ITGlueServerError :: "js_error \<Rightarrow> bool" where
  "instanceof_ITGlueServerError (ITGlue e) = (error_class e = ITGlueServerError)"
| "instanceof_ITGlueServerError (OtherError s) = False"

definition request_shouldRetry :: "js_error \<Rightarrow> bool" where
  "request_shouldRetry error =
     (instanceof_ITGlueRateLimitError error \<or> instanceof_ITGlueServerError error)"

record RetryConfig =
  maxRetries :: nat
  baseDelayMs :: int
  maxDelayMs :: int
  shouldRetry :: "js_error \<Rightarrow> bool"

text \<open>
  One attempt of a request: it changes the outside world \<open>'w\<close> and either throws or
  returns a value.
\<close>

type_synonym ('a, 'w) attempt = "'w \<Rightarrow> (js_error + 'a) \<times> 'w"

text \<open>
  Modelled from the spec: \<^verbatim>\<open>retryWithBackoff\<close> of \<^verbatim>\<open>src/rate-limiter.ts\<close> is not among
  the sources (only its callers and its tests are). The specification says: execute the
  attempt; on success return the result at once; on failure, if \<^verbatim>\<open>shouldRetry(error)\<close>
  is false or the number of attempts already made exceeds \<^verbatim>\<open>maxRetries\<close>, re-raise the
  error at once; otherwise wait and retry. \<open>n\<close> is the number of attempts made before
  this one; the result carries the number of attempts made in all. The wait (a delay with
  random jitter) changes neither and is left out.
\<close>

function retryWithBackoff_from ::
  "('a, 'w) attempt \<Rightarrow> RetryConfig \<Rightarrow> nat \<Rightarrow> 'w \<Rightarrow> (js_error + 'a) \<times> nat \<times> 'w" where
  "retryWithBackoff_from attempt cfg n w =
     (case attempt w of
        (Inr v, w') \<Rightarrow> (Inr v, Suc n, w')
      | (Inl e, w') \<Rightarrow>
          if \<not> shouldRetry cfg e \<or> Suc n > maxRetries cfg then (Inl e, Suc n, w')
          else retryWithBackoff_from attempt cfg (Suc n) w')"
  by pat_completeness auto
termination
  by (relation "measure (\<lambda>(attempt, cfg, n, w). maxRetries cfg - n)") auto

declare retryWithBackoff_from.simps [simp del]

definition retryWithBackoff ::
  "('a, 'w) attempt \<Rightarrow> RetryConfig \<Rightarrow> 'w \<Rightarrow> (js_error + 'a) \<times> nat \<times> 'w" where
  "retryWithBackoff attempt cfg w = retryWithBackoff_from attempt cfg 0 w"

text \<open>
  \<^verbatim>\<open>HttpClient.requestWithRetry\<close>; \<open>request\<close> stands for
  \<^verbatim>\<open>() => this.request<T>(method, path, options)\<close> and the two numbers for
  \<^verbatim>\<open>config.rateLimiter.maxRetries\<close> and \<^verbatim>\<open>config.rateLimiter.retryAfterMs\<close>.
\<close>

definition requestWithRetry ::
  "('a, 'w) attempt \<Rightarrow> nat \<Rightarrow> int \<Rightarrow> 'w \<Rightarrow> (js_error + 'a) \<times> nat \<times> 'w" where
  "requestWithRetry request config_maxRetries config_retryAfterMs w =
     retryWithBackoff request
       \<lparr> maxRetries = config_maxRetries, baseDelayMs = config_retryAfterMs,
         maxDelayMs = 60000, shouldRetry = request_shouldRetry \<rparr> w"

text \<open>
  The world in which attempt number \<open>i\<close> (counted from 0) starts when the attempts are
  made one after the other from the world \<open>w\<close>.
\<close>

primrec world_before :: "('a, 'w) attempt \<Rightarrow> 'w \<Rightarrow> nat \<Rightarrow> 'w" where
  "world_before attempt w 0 = w"
| "world_before attempt w (Suc i) = world_before attempt (snd (attempt w)) i"

subsection \<open>Requests of the test suite\<close>

definition validation_failure :: itglue_error where
  "validation_failure =
     \<lparr> error_class = ITGlueValidationError (JArr []), message = ''Validation failed.'',
       statusCode = 422, response = JNull, url = None, method' = None \<rparr>"

definition rate_limit_failure :: itglue_error where
  "rate_limit_failure =
     \<lparr> error_class = ITGlueRateLimitError None, message = ''Rate limit exceeded.'',
       statusCode = 429, response = JNull, url = None, method' = None \<rparr>"

text \<open>A request that counts its calls in the world and always fails with a validation error.\<close>

definition failing_validation_request :: "(jsval, nat) attempt" where
  "failing_validation_request w = (Inl (ITGlue validation_failure), Suc w)"

text \<open>
  A request that counts its calls in the world, is rate-limited on the first two calls,
  fails with a validation error on the third and would succeed from the fourth on.
\<close>

definition limited_then_invalid_request :: "(jsval, nat) attempt" where
  "limited_then_invalid_request w =
     (if w < 2 then Inl (ITGlue rate_limit_failure)
      else if w = 2 then Inl (ITGlue validation_failure)
      else Inr (JStr ''success''), Suc w)"

text \<open>A request that is rate-limited on the first call and succeeds on the second.\<close>

definition limited_once_request :: "(jsval, nat) attempt" where
  "limited_once_request w =
     (if w = 0 then Inl (ITGlue rate_limit_failure) else Inr (JStr ''success''), Suc w)"

section \<open>Decoding JSON:API envelopes (src/jsonapi.ts)\<close>

text \<open>
  A \<^verbatim>\<open>for (const [key, value] of Object.entries(obj))\<close> loop whose body is
  \<^verbatim>\<open>result[f(key)] = g(value)\<close>, as a fold over the entries.
\<close>

definition set_entries ::
  "(string \<times> jsval) list \<Rightarrow> (string \<times> jsval) list \<Rightarrow> (string \<times> jsval) list" where
  "set_entries entries result = fold (\<lambda>(k, v) r. obj_set r k v) entries result"

text \<open>
  \<open>convertKeysToCamel\<close>. \<open>convert_entries\<close> gives each entry of an object its new name and
  its converted value; the loop then assigns them to the fresh \<^verbatim>\<open>result\<close> in order.
\<close>

fun convertKeysToCamel :: "jsval \<Rightarrow> jsval"
  and convert_items :: "jsval list \<Rightarrow> jsval list"
  and convert_entries :: "(string \<times> jsval) list \<Rightarrow> (string \<times> jsval) list" where
  "convertKeysToCamel JUndefined = JUndefined"
| "convertKeysToCamel JNull = JNull"
| "convertKeysToCamel (JArr xs) = JArr (convert_items xs)"
| "convertKeysToCamel (JObj kvs) = JObj (set_entries (convert_entries kvs) [])"
| "convertKeysToCamel (JBool b) = JBool b"
| "convertKeysToCamel (JNum n) = JNum n"
| "convertKeysToCamel (JStr s) = JStr s"
| "convert_items [] = []"
| "convert_items (x # xs) = convertKeysToCamel x # convert_items xs"
| "convert_entries [] = []"
| "convert_entries ((k, v) # kvs) = (kebabToCamel k, convertKeysToCamel v) # convert_entries kvs"

text \<open>The value a relationship is given, from its \<^verbatim>\<open>value.data\<close>.\<close>

definition relationship_links :: "jsval \<Rightarrow> jsval" where
  "relationship_links d =
     (if d = JNull then JArr [] else if isArray d then d else JArr [d])"

text \<open>
  The loop of \<open>deserializeRelationships\<close>; \<^verbatim>\<open>value.data\<close> throws when an entry of
  \<^verbatim>\<open>relationships\<close> is \<^verbatim>\<open>null\<close>.
\<close>

fun relationships_loop ::
  "(string \<times> jsval) list \<Rightarrow> (string \<times> jsval) list \<Rightarrow> js_exn + (string \<times> jsval) list" where
  "relationships_loop [] result = Inr result"
| "relationships_loop ((key, value) # rest) result =
     (case get_prop value ''data'' of
        Inl e \<Rightarrow> Inl e
      | Inr d \<Rightarrow> relationships_loop rest (obj_set result (kebabToCamel key) (relationship_links d)))"

definition deserializeRelationships :: "jsval \<Rightarrow> js_exn + jsval" where
  "deserializeRelationships relationships =
     (if \<not> truthy relationships then Inr JUndefined
      else case object_entries relationships of
             Inl e \<Rightarrow> Inl e
           | Inr entries \<Rightarrow>
               (case relationships_loop entries [] of
                  Inl e \<Rightarrow> Inl e
                | Inr result \<Rightarrow> Inr (if length result > 0 then JObj result else JUndefined)))"

text \<open>The attribute loop of \<open>deserializeResource\<close>, run when \<^verbatim>\<open>resource.attributes\<close> is truthy.\<close>

definition flatten_attributes ::
  "jsval \<Rightarrow> (string \<times> jsval) list \<Rightarrow> js_exn + (string \<times> jsval) list" where
  "flatten_attributes attributes result =
     (if truthy attributes then
        (case object_entries attributes of
           Inl e \<Rightarrow> Inl e
         | Inr entries \<Rightarrow> Inr (set_entries (convert_entries entries) result))
      else Inr result)"

definition deserializeResource :: "jsval \<Rightarrow> js_exn + jsval" where
  "deserializeResource resource =
     (case get_prop resource ''id'' of Inl e \<Rightarrow> Inl e | Inr rid \<Rightarrow>
      case get_prop resource ''type'' of Inl e \<Rightarrow> Inl e | Inr rtype \<Rightarrow>
      case get_prop resource ''attributes'' of Inl e \<Rightarrow> Inl e | Inr attributes \<Rightarrow>
      case flatten_attributes attributes [(''id'', rid), (''type'', rtype)] of
        Inl e \<Rightarrow> Inl e | Inr result \<Rightarrow>
      case get_prop resource ''relationships'' of Inl e \<Rightarrow> Inl e | Inr rels \<Rightarrow>
      case deserializeRelationships rels of Inl e \<Rightarrow> Inl e | Inr relationships \<Rightarrow>
        Inr (JObj (if truthy relationships
                   then obj_set result ''relationships'' relationships
                   else result)))"

definition deserializeMeta :: "jsval \<Rightarrow> jsval" where
  "deserializeMeta wire_meta =
     (if \<not> truthy wire_meta then JUndefined
      else JObj
        [(''currentPage'', js_coalesce (prop_of wire_meta ''current-page'') (JNum 1)),
         (''nextPage'', js_coalesce (prop_of wire_meta ''next-page'') JNull),
         (''prevPage'', js_coalesce (prop_of wire_meta ''prev-page'') JNull),
         (''totalPages'', js_coalesce (prop_of wire_meta ''total-pages'') (JNum 1)),
         (''totalCount'', js_coalesce (prop_of wire_meta ''total-count'') (JNum 0))])"

text \<open>\<^verbatim>\<open>xs.map((resource) => deserializeResource(resource))\<close>: the first exception ends it.\<close>

fun map_resources :: "jsval list \<Rightarrow> js_exn + jsval list" where
  "map_resources [] = Inr []"
| "map_resources (x # xs) =
     (case deserializeResource x of
        Inl e \<Rightarrow> Inl e
      | Inr y \<Rightarrow> (case map_resources xs of Inl e \<Rightarrow> Inl e | Inr ys \<Rightarrow> Inr (y # ys)))"

text \<open>
  \<^verbatim>\<open>response.included?.map(...)\<close>: \<^verbatim>\<open>undefined\<close> for a missing or \<^verbatim>\<open>null\<close> value; a
  value that is not an array has no function \<^verbatim>\<open>map\<close>, and calling it throws.
\<close>

fun map_included :: "jsval \<Rightarrow> js_exn + jsval" where
  "map_included JUndefined = Inr JUndefined"
| "map_included JNull = Inr JUndefined"
| "map_included (JArr xs) =
     (case map_resources xs of Inl e \<Rightarrow> Inl e | Inr ys \<Rightarrow> Inr (JArr ys))"
| "map_included v = Inl TypeError"

text \<open>
  The two branches of \<open>deserialize\<close> on \<^verbatim>\<open>Array.isArray(response.data)\<close>: an array of
  resources is mapped, anything else is decoded as a single resource.
\<close>

fun decode_data :: "jsval \<Rightarrow> js_exn + jsval" where
  "decode_data (JArr xs) =
     (case map_resources xs of Inl e \<Rightarrow> Inl e | Inr ys \<Rightarrow> Inr (JArr ys))"
| "decode_data d = deserializeResource d"

text \<open>
  \<open>deserialize\<close>. The result is the object \<^verbatim>\<open>{ data, meta, included }\<close>. Both branches
  of the source compute \<^verbatim>\<open>included\<close> in the same way after \<^verbatim>\<open>data\<close>.
\<close>

definition deserialize :: "jsval \<Rightarrow> js_exn + jsval" where
  "deserialize envelope =
     (case get_prop envelope ''meta'' of Inl e \<Rightarrow> Inl e | Inr m \<Rightarrow>
      case get_prop envelope ''data'' of Inl e \<Rightarrow> Inl e | Inr d \<Rightarrow>
      case decode_data d of Inl e \<Rightarrow> Inl e | Inr decoded \<Rightarrow>
      case get_prop envelope ''included'' of Inl e \<Rightarrow> Inl e | Inr inc \<Rightarrow>
      case map_included inc of Inl e \<Rightarrow> Inl e | Inr included \<Rightarrow>
        Inr (JObj [(''data'', decoded), (''meta'', deserializeMeta m), (''included'', included)]))"

subsection \<open>Wire resources\<close>

text \<open>
  A wire key is in the wire convention when it has no capital letter (lowercase words
  joined by hyphens).
\<close>

definition wire_key :: "string \<Rightarrow> bool" where
  "wire_key k = (\<forall>c \<in> set k. \<not> is_upper c)"

text \<open>
  When the decoder does not throw: nothing it reads a property of is \<^verbatim>\<open>null\<close> or
  \<^verbatim>\<open>undefined\<close>, and \<^verbatim>\<open>included\<close> is absent or an array.
\<close>

definition decodable_relationships :: "jsval \<Rightarrow> bool" where
  "decodable_relationships rels =
     (case object_entries rels of
        Inl e \<Rightarrow> True
      | Inr entries \<Rightarrow> truthy rels \<longrightarrow> (\<forall>(k, v) \<in> set entries. \<not> nullish v))"

definition decodable_resource :: "jsval \<Rightarrow> bool" where
  "decodable_resource r =
     (\<not> nullish r \<and> decodable_relationships (prop_of r ''relationships''))"

fun decodable_data :: "jsval \<Rightarrow> bool" where
  "decodable_data (JArr xs) = list_all decodable_resource xs"
| "decodable_data d = decodable_resource d"

fun decodable_included :: "jsval \<Rightarrow> bool" where
  "decodable_included JUndefined = True"
| "decodable_included JNull = True"
| "decodable_included (JArr xs) = list_all decodable_resource xs"
| "decodable_included v = False"

definition decodable :: "jsval \<Rightarrow> bool" where
  "decodable envelope =
     (\<not> nullish envelope
      \<and> decodable_data (prop_of envelope ''data'')
      \<and> decodable_included (prop_of envelope ''included''))"

subsection \<open>Envelopes of the test suite\<close>

definition null_relationship_resource :: jsval where
  "null_relationship_resource =
     JObj [(''id'', JStr ''123''), (''type'', JStr ''organizations''),
           (''attributes'', JObj [(''name'', JStr ''Acme'')]),
           (''relationships'',
              JObj [(''locations'', JObj [(''data'', JNull)]),
                    (''primary-contact'',
                       JObj [(''data'', JObj [(''id'', JStr ''9''), (''type'', JStr ''contacts'')])])])]"

text \<open>A resource whose only relationship is named \<^verbatim>\<open>__proto__\<close> and has no data.\<close>

definition proto_relationship_resource :: jsval where
  "proto_relationship_resource =
     JObj [(''id'', JStr ''1''), (''type'', JStr ''organizations''),
           (''relationships'', JObj [(''__proto__'', JObj [(''data'', JNull)])])]"

definition no_attributes_resource :: jsval where
  "no_attributes_resource = JObj [(''id'', JStr ''1''), (''type'', JStr ''organizations'')]"

text \<open>Undoing \<open>kebabToCamel\<close> on keys in the wire convention: a capital came from a hyphen.\<close>

fun uncamel :: "string \<Rightarrow> string" where
  "uncamel [] = []"
| "uncamel (c # cs) =
     (if is_upper c then CHR ''-'' # toLowerCase_char c # uncamel cs else c # uncamel cs)"

section \<open>Query builder (src/jsonapi.ts)\<close>

text \<open>
  \<^verbatim>\<open>searchParams.set(name, value)\<close> of \<^verbatim>\<open>URLSearchParams\<close>: the first pair of that name
  gets the value and any further pair of that name is removed; without such a pair a new
  one is appended.
\<close>

fun searchParams_set ::
  "(string \<times> string) list \<Rightarrow> string \<Rightarrow> string \<Rightarrow> (string \<times> string) list" where
  "searchParams_set [] k v = [(k, v)]"
| "searchParams_set ((k', v') # ps) k v =
     (if k' = k then (k, v) # filter (\<lambda>p. fst p \<noteq> k) ps
      else (k', v') # searchParams_set ps k v)"

text \<open>\<^verbatim>\<open>prefix ? `${prefix}[${kebabKey}]` : kebabKey\<close>; the empty string is falsy.\<close>

definition param_key :: "string \<Rightarrow> string \<Rightarrow> string" where
  "param_key prefix key =
     (if prefix \<noteq> [] then prefix @ ''['' @ camelToKebab key @ '']'' else camelToKebab key)"

text \<open>
  The inner function \<^verbatim>\<open>addParam\<close>, with the \<^verbatim>\<open>searchParams\<close> it writes to passed
  through; \<open>addParam_entries\<close> is its loop over the entries of a nested object. The
  value written is computed first (\<^verbatim>\<open>value.join(',')\<close>, \<^verbatim>\<open>String(value)\<close>); when that
  throws nothing is written and the exception leaves \<open>buildQueryParams\<close>.
\<close>

fun addParam ::
    "string \<Rightarrow> jsval \<Rightarrow> (string \<times> string) list \<Rightarrow> js_exn + (string \<times> string) list"
  and addParam_entries ::
    "string \<Rightarrow> (string \<times> jsval) list \<Rightarrow> (string \<times> string) list
       \<Rightarrow> js_exn + (string \<times> string) list" where
  "addParam prefix JUndefined sp = Inr sp"
| "addParam prefix JNull sp = Inr sp"
| "addParam prefix (JObj kvs) sp = addParam_entries prefix kvs sp"
| "addParam prefix (JArr xs) sp =
     (case array_join xs of Inl e \<Rightarrow> Inl e | Inr s \<Rightarrow> Inr (searchParams_set sp prefix s))"
| "addParam prefix (JBool b) sp =
     (case js_String (JBool b) of Inl e \<Rightarrow> Inl e | Inr s \<Rightarrow> Inr (searchParams_set sp prefix s))"
| "addParam prefix (JNum n) sp =
     (case js_String (JNum n) of Inl e \<Rightarrow> Inl e | Inr s \<Rightarrow> Inr (searchParams_set sp prefix s))"
| "addParam prefix (JStr s) sp =
     (case js_String (JStr s) of Inl e \<Rightarrow> Inl e | Inr s' \<Rightarrow> Inr (searchParams_set sp prefix s'))"
| "addParam_entries prefix [] sp = Inr sp"
| "addParam_entries prefix ((key, nestedValue) # rest) sp =
     (case addParam (param_key prefix key) nestedValue sp of
        Inl e \<Rightarrow> Inl e
      | Inr sp' \<Rightarrow> addParam_entries prefix rest sp')"

text \<open>The loop over the top-level parameters.\<close>

fun buildQueryParams_loop ::
  "(string \<times> jsval) list \<Rightarrow> (string \<times> string) list \<Rightarrow> js_exn + (string \<times> string) list" where
  "buildQueryParams_loop [] sp = Inr sp"
| "buildQueryParams_loop ((key, v) # rest) sp =
     (if v = JUndefined \<or> v = JNull then buildQueryParams_loop rest sp
      else case addParam (camelToKebab key) v sp of
             Inl e \<Rightarrow> Inl e
           | Inr sp' \<Rightarrow> buildQueryParams_loop rest sp')"

definition buildQueryParams :: "(string \<times> jsval) list \<Rightarrow> js_exn + (string \<times> string) list" where
  "buildQueryParams params = buildQueryParams_loop params []"

text \<open>
  A parameters tree without its \<^verbatim>\<open>null\<close> and \<^verbatim>\<open>undefined\<close> entries: they are removed
  from every object of the tree, at any depth of nested objects. Lists are left as they
  are.
\<close>

fun strip_nullish :: "jsval \<Rightarrow> jsval"
  and strip_entries :: "(string \<times> jsval) list \<Rightarrow> (string \<times> jsval) list" where
  "strip_nullish (JObj kvs) = JObj (strip_entries kvs)"
| "strip_nullish JUndefined = JUndefined"
| "strip_nullish JNull = JNull"
| "strip_nullish (JArr xs) = JArr xs"
| "strip_nullish (JBool b) = JBool b"
| "strip_nullish (JNum n) = JNum n"
| "strip_nullish (JStr s) = JStr s"
| "strip_entries [] = []"
| "strip_entries ((k, v) # kvs) =
     (if nullish v then strip_entries kvs else (k, strip_nullish v) # strip_entries kvs)"

subsection \<open>Filter parameters\<close>

text \<open>
  \<^verbatim>\<open>typeof value === 'object' && !Array.isArray(value) &&
  ('gt' in value || 'gte' in value || 'lt' in value || 'lte' in value)\<close>
  for a value that is not \<^verbatim>\<open>null\<close>.
\<close>

fun is_operator_object :: "jsval \<Rightarrow> bool" where
  "is_operator_object (JObj ops) =
     (has_key ops ''gt'' \<or> has_key ops ''gte'' \<or> has_key ops ''lt'' \<or> has_key ops ''lte'')"
| "is_operator_object v = False"

text \<open>\<^verbatim>\<open>if (operators.op !== undefined) { result[`${key}[op]`] = operators.op; }\<close>\<close>

definition set_operator ::
  "string \<Rightarrow> jsval \<Rightarrow> string \<Rightarrow> (string \<times> jsval) list \<Rightarrow> (string \<times> jsval) list" where
  "set_operator key operators op result =
     (if prop_of operators op \<noteq> JUndefined
      then obj_set result (key @ ''['' @ op @ '']'') (prop_of operators op)
      else result)"

text \<open>The body of the loop of \<open>buildFilterParams\<close> for one entry.\<close>

definition filter_entry ::
  "string \<Rightarrow> jsval \<Rightarrow> (string \<times> jsval) list \<Rightarrow> (string \<times> jsval) list" where
  "filter_entry key v result =
     (if v = JUndefined \<or> v = JNull then result
      else if is_operator_object v then
        set_operator key v ''lte''
          (set_operator key v ''lt''
            (set_operator key v ''gte''
              (set_operator key v ''gt'' result)))
      else obj_set result key v)"

fun buildFilterParams_loop ::
  "(string \<times> jsval) list \<Rightarrow> (string \<times> jsval) list \<Rightarrow> (string \<times> jsval) list" where
  "buildFilterParams_loop [] result = result"
| "buildFilterParams_loop ((key, v) # rest) result =
     buildFilterParams_loop rest (filter_entry key v result)"

text \<open>
  \<open>buildFilterParams\<close>; the argument is \<^verbatim>\<open>Record<string, unknown> | undefined\<close>, with
  \<open>None\<close> for \<^verbatim>\<open>undefined\<close>.
\<close>

definition buildFilterParams :: "(string \<times> jsval) list option \<Rightarrow> (string \<times> jsval) list" where
  "buildFilterParams filter_arg =
     (case filter_arg of None \<Rightarrow> [] | Some entries \<Rightarrow> buildFilterParams_loop entries [])"

text \<open>
  What one filter entry contributes, in the words of the specification: an operator
  object expands to one key \<open>field[op]\<close> for each of the four operators that has a value,
  an entry without a value (\<^verbatim>\<open>null\<close> or \<^verbatim>\<open>undefined\<close>) contributes nothing, and every
  other entry passes through under its own name. The exception is the name
  \<^verbatim>\<open>__proto__\<close>, under which nothing can be stored in the result.
\<close>

definition operator_names :: "string list" where
  "operator_names = [''gt'', ''gte'', ''lt'', ''lte'']"

definition expand_entry :: "string \<times> jsval \<Rightarrow> (string \<times> jsval) list" where
  "expand_entry e =
     (case e of (key, v) \<Rightarrow>
        if nullish v then []
        else if is_operator_object v then
          map (\<lambda>op. (key @ ''['' @ op @ '']'', prop_of v op))
            (filter (\<lambda>op. prop_of v op \<noteq> JUndefined) operator_names)
        else if key = ''__proto__'' then []
        else [(key, v)])"

text \<open>
  The binding a list of writes leaves for a name: that of the last write to it.
\<close>

definition last_write :: "(string \<times> 'v) list \<Rightarrow> string \<Rightarrow> 'v option" where
  "last_write writes k = map_of (rev writes) k"

section \<open>Properties of the key conversion\<close>

subsection \<open>Facts about the character classes\<close>

lemma upper_lower_char: "is_upper b \<Longrightarrow> toUpperCase_char (toLowerCase_char b) = b"
  unfolding char_defs by (simp, elim disjE; simp)

lemma lower_of_upper: "is_upper b \<Longrightarrow> is_lower (toLowerCase_char b)"
  unfolding char_defs by (simp, elim disjE; simp)

lemma upper_of_lower: "is_lower b \<Longrightarrow> is_upper (toUpperCase_char b)"
  unfolding char_defs by (simp, elim disjE; simp)

lemma lower_upper_char: "is_lower b \<Longrightarrow> toLowerCase_char (toUpperCase_char b) = b"
  unfolding char_defs by (simp, elim disjE; simp)

lemma lower_fix: "is_lower a \<Longrightarrow> toLowerCase_char a = a"
  unfolding char_defs by (simp, elim disjE; simp)

lemma lower_not_hyphen: "is_lower a \<Longrightarrow> a \<noteq> CHR ''-''"
  unfolding char_defs by (simp, elim disjE; simp)

lemma lower_not_upper: "is_lower a \<Longrightarrow> \<not> is_upper a"
  unfolding char_defs by (simp, elim disjE; simp)

lemma hyphen_lower: "toLowerCase_char CHR ''-'' = CHR ''-''"
  by (simp add: char_defs)

lemma hyphen_not_upper: "\<not> is_upper CHR ''-''"
  by (simp add: char_defs)

subsection \<open>Round trip of keys\<close>

lemma kebabToCamel_Cons: "h \<noteq> CHR ''-'' \<Longrightarrow> kebabToCamel (h # s) = h # kebabToCamel s"
  by (cases s) auto

lemma digit_fix: "is_digit a \<Longrightarrow> toLowerCase_char a = a"
  unfolding char_defs by (simp, elim disjE; simp)

lemma digit_not_hyphen: "is_digit a \<Longrightarrow> a \<noteq> CHR ''-''"
  unfolding char_defs by (simp, elim disjE; simp)

lemma digit_not_upper: "is_digit a \<Longrightarrow> \<not> is_upper a"
  unfolding char_defs by (simp, elim disjE; simp)

lemma camel_from_head:
  assumes "camel_from False (a # cs)"
  shows "toLowerCase_char a = a" and "a \<noteq> CHR ''-''" and "\<not> is_upper a"
  using assms
  by (auto simp: lower_fix digit_fix lower_not_hyphen digit_not_hyphen lower_not_upper
      split: if_splits)

lemma camel_from_not_upper:
  "\<not> is_upper b \<Longrightarrow> camel_from p (b # cs) = camel_from False (b # cs)"
  by simp

lemma camel_roundtrip_from:
  "camel_from False k \<Longrightarrow> kebabToCamel (camelToKebab k) = k"
proof (induction k rule: insert_hyphens.induct)
  case (1 a b rest)
  note hd = camel_from_head [OF "1.prems"]
  show ?case
  proof (cases "is_lower a \<and> is_upper b")
    case True
    with "1.prems" have r: "camel_from False rest"
      by (simp add: lower_not_upper split: if_splits)
    have "kebabToCamel (camelToKebab rest) = rest"
      using "1.IH"(1) True r by simp
    then show ?thesis
      using True
      by (simp add: camelToKebab_def lower_fix lower_not_hyphen kebabToCamel_Cons
          upper_lower_char lower_of_upper hyphen_lower)
  next
    case False
    have nb: "\<not> is_upper b"
      using False "1.prems" by (auto simp: lower_not_upper split: if_splits)
    have r: "camel_from False (b # rest)"
      using "1.prems" camel_from_not_upper [OF nb, of True rest]
      by (auto split: if_splits)
    have "kebabToCamel (camelToKebab (b # rest)) = b # rest"
      using "1.IH"(2) False r by simp
    moreover have "insert_hyphens (a # b # rest) = a # insert_hyphens (b # rest)"
      using False by auto
    ultimately show ?thesis
      using hd by (simp add: camelToKebab_def kebabToCamel_Cons)
  qed
qed (auto simp: camelToKebab_def lower_fix digit_fix split: if_splits)

subsection \<open>Keys made of words\<close>

lemma upper_not_lower: "is_upper a \<Longrightarrow> \<not> is_lower a"
  using lower_not_upper by blast

lemma camel_from_lowers:
  "\<forall>c \<in> set cs. is_lower c \<Longrightarrow> cs \<noteq> [] \<Longrightarrow> camel_from p (cs @ rest) = camel_from True rest"
proof (induction cs arbitrary: p)
  case Nil
  then show ?case by simp
next
  case (Cons c cs)
  then show ?case by (cases cs) auto
qed

lemma camel_from_lower_word:
  "lower_word w \<Longrightarrow> camel_from p (w @ rest) = camel_from True rest"
  by (simp add: lower_word_def camel_from_lowers)

lemma camel_from_capitalized:
  assumes "lower_word w" "2 \<le> length w"
  shows "camel_from True (capitalize w @ rest) = camel_from True rest"
proof -
  from assms obtain c cs where w: "w = c # cs" "cs \<noteq> []" "is_lower c" "\<forall>x \<in> set cs. is_lower x"
    by (cases w) (fastforce simp: lower_word_def)+
  then show ?thesis
    using camel_from_lowers [of cs False rest]
    by (simp add: capitalize_def upper_of_lower upper_not_lower)
qed

lemma camel_from_last_word:
  assumes "lower_word w"
  shows "camel_from True (capitalize w)"
proof -
  from assms obtain c cs where w: "w = c # cs" "is_lower c" "\<forall>x \<in> set cs. is_lower x"
    by (cases w) (auto simp: lower_word_def)
  show ?thesis
  proof (cases "cs = []")
    case True
    with w show ?thesis by (simp add: capitalize_def upper_of_lower upper_not_lower)
  next
    case False
    with w camel_from_lowers [of cs False "[]"] show ?thesis
      by (simp add: capitalize_def upper_of_lower upper_not_lower)
  qed
qed

lemma camel_from_join_words: "inner_words ws \<Longrightarrow> camel_from True (join_words ws)"
proof (induction ws rule: inner_words.induct)
  case 1
  then show ?case by simp
next
  case (2 w)
  then show ?case by (simp add: camel_from_last_word)
next
  case (3 w v ws)
  then show ?case by (simp add: camel_from_capitalized)
qed

text \<open>
  A first lowercase word followed by capitalised lowercase words is a key of the kind the
  round trip holds for, so the round trip holds for it.
\<close>

lemma camel_words_roundtrip:
  assumes "lower_word w" "inner_words ws"
  shows "kebabToCamel (camelToKebab (w @ join_words ws)) = w @ join_words ws"
proof -
  have "camel_from False (w @ join_words ws)"
    using assms by (simp add: camel_from_lower_word camel_from_join_words)
  then show ?thesis by (rule camel_roundtrip_from)
qed

lemma camel_words_example:
  "''organizationTypeName'' = ''organization'' @ join_words [''type'', ''name'']"
  by (simp add: capitalize_def char_defs)

text \<open>The unit tests' examples of both conversions, including the documented lossy one.\<close>

lemma kebabToCamel_examples:
  "kebabToCamel ''organization-type-name'' = ''organizationTypeName''"
  "kebabToCamel ''created-at'' = ''createdAt''"
  "kebabToCamel ''name'' = ''name''"
  "kebabToCamel [] = []"
  by (simp_all add: char_defs)

lemma camelToKebab_examples:
  "camelToKebab ''organizationTypeName'' = ''organization-type-name''"
  "camelToKebab ''someURLValue'' = ''some-urlvalue''"
  "camelToKebab [] = []"
  by (simp_all add: camelToKebab_def char_defs)

text \<open>
  Claim C2, as the code has it. For every internal key made of ASCII letters and digits
  in which every capital letter directly follows a lowercase letter (lowercase words
  joined by capitalization, a single capital at each joint, no word ending in a digit
  before a joint), converting to the wire convention and back is the identity:
  \<open>kebabToCamel (camelToKebab k) = k\<close>.
\<close>

theorem camel_kebab_roundtrip:
  "single_capital_camel k \<Longrightarrow> kebabToCamel (camelToKebab k) = k"
  unfolding single_capital_camel_def by (rule camel_roundtrip_from)

theorem camel_kebab_roundtrip_witness:
  "single_capital_camel ''organizationTypeName'' \<and>
   kebabToCamel (camelToKebab ''organizationTypeName'') = ''organizationTypeName''"
proof -
  have h: "single_capital_camel ''organizationTypeName''"
    by (simp add: single_capital_camel_def char_defs)
  show ?thesis
    using h camel_kebab_roundtrip [OF h] by simp
qed

text \<open>
  The claim as stated fails for a word that ends in a digit: \<open>base64Data\<close> is made of
  the lowercase words \<open>base64\<close> and \<open>data\<close> joined by capitalization, with a single
  capital, but \<open>[a-z]\<close> does not match the digit before the capital, so no hyphen is
  inserted and the capital is lost.
\<close>

theorem camel_kebab_roundtrip_digit_counterexample:
  "''base64Data'' = ''base64'' @ capitalize ''data''
   \<and> camelToKebab ''base64Data'' = ''base64data''
   \<and> kebabToCamel (camelToKebab ''base64Data'') \<noteq> ''base64Data''"
  by (simp add: camelToKebab_def capitalize_def char_defs)

section \<open>Properties of the pagination engine\<close>

subsection \<open>One call of the iterator\<close>

lemma fetch_page_fields:
  assumes "fetch_page it w = (it', w')"
  shows "it_currentIndex it' = 0"
    and "it_totalReturned it' = it_totalReturned it"
    and "it_maxItems it' = it_maxItems it"
    and "it_fetcher it' = it_fetcher it"
    and "it_pageSize it' = it_pageSize it"
    and "it_currentPage it' = it_currentPage it + 1"
    and "\<exists>r. it_fetched it' = it_fetched it @ [(\<lparr>number = it_currentPage it, size' = it_pageSize it\<rparr>, r)]
           \<and> it_currentItems it' = data r \<and> it_hasMore it' = more_pages (meta r)
           \<and> r = fst (it_fetcher it \<lparr>number = it_currentPage it, size' = it_pageSize it\<rparr> w)"
  using assms by (auto simp: fetch_page_def Let_def split: prod.splits)

lemma fetch_loop_once:
  "fetch_loop it w =
     (if exhausted it \<and> it_hasMore it
      then (case fetch_page it w of (it', w') \<Rightarrow> (it_currentItems it' = [], it', w'))
      else (False, it, w))"
proof (cases "exhausted it \<and> it_hasMore it")
  case False
  then show ?thesis by (subst fetch_loop.simps) auto
next
  case True
  obtain it' w' where fp: "fetch_page it w = (it', w')" by (cases "fetch_page it w")
  show ?thesis
  proof (cases "it_currentItems it' = []")
    case empty: True
    with True fp show ?thesis
      by (subst fetch_loop.simps) auto
  next
    case False
    have "it_currentIndex it' = 0" using fp by (rule fetch_page_fields)
    with False have "\<not> exhausted it'" by (simp add: exhausted_def)
    then have "fetch_loop it' w' = (False, it', w')"
      by (subst fetch_loop.simps) auto
    with True False fp show ?thesis
      by (subst fetch_loop.simps) auto
  qed
qed

lemma next_capped: "capped it \<Longrightarrow> iterator_next it w = (None, it, w)"
  by (simp add: iterator_next_def capped_def)

lemma next_yield:
  "\<not> capped it \<Longrightarrow> \<not> exhausted it \<Longrightarrow>
   iterator_next it w =
     (Some (it_currentItems it ! it_currentIndex it),
      it \<lparr> it_currentIndex := it_currentIndex it + 1,
           it_totalReturned := it_totalReturned it + 1 \<rparr>, w)"
  by (simp add: iterator_next_def capped_def fetch_loop_once)

lemma next_finished:
  "\<not> capped it \<Longrightarrow> exhausted it \<Longrightarrow> \<not> it_hasMore it \<Longrightarrow> iterator_next it w = (None, it, w)"
  by (simp add: iterator_next_def capped_def fetch_loop_once)

lemma next_fetch_empty:
  "\<not> capped it \<Longrightarrow> exhausted it \<Longrightarrow> it_hasMore it \<Longrightarrow> fetch_page it w = (it', w') \<Longrightarrow>
   it_currentItems it' = [] \<Longrightarrow> iterator_next it w = (None, it', w')"
  by (simp add: iterator_next_def capped_def fetch_loop_once)

lemma next_fetch_yield:
  "\<not> capped it \<Longrightarrow> exhausted it \<Longrightarrow> it_hasMore it \<Longrightarrow> fetch_page it w = (it', w') \<Longrightarrow>
   it_currentItems it' \<noteq> [] \<Longrightarrow>
   iterator_next it w =
     (Some (hd (it_currentItems it')),
      it' \<lparr> it_currentIndex := 1, it_totalReturned := it_totalReturned it + 1 \<rparr>, w')"
  using fetch_page_fields(1,2) [of it w it' w']
  by (simp add: iterator_next_def capped_def fetch_loop_once exhausted_def hd_conv_nth
     )

text \<open>
  Claim C1. Given a fetch function that returns for page 1 two items with
  \<open>meta.nextPage = 2\<close> and for page 2 two items with \<open>meta.nextPage = null\<close>, draining the
  item iterator (default start page, no item cap) yields exactly the four items, page 1
  first and each page in its own order, and the fetch function is called exactly twice:
  once for page 1, then once for page 2.
\<close>

theorem paginated_two_pages:
  assumes p1: "\<And>p w. number p = 1 \<Longrightarrow>
                 data (fst (f p w)) = [a, b] \<and> (\<exists>m. meta (fst (f p w)) = Some m \<and> nextPage m = Some 2)"
      and p2: "\<And>p w. number p = 2 \<Longrightarrow>
                 data (fst (f p w)) = [c, d] \<and> (\<exists>m. meta (fst (f p w)) = Some m \<and> nextPage m = None)"
      and opts: "startPage options = None" "maxItems options = None"
  shows "\<exists>it' w'. toArray (createPaginatedIterator f options) w = Some ([a, b, c, d], it', w')
           \<and> map (\<lambda>(p, r). number p) (it_fetched it') = [1, 2]"
proof -
  define ps where "ps = it_pageSize (createPaginatedIterator f options)"
  obtain r1 w1 where f1: "f \<lparr>number = 1, size' = ps\<rparr> w = (r1, w1)"
    by (cases "f \<lparr>number = 1, size' = ps\<rparr> w")
  obtain r2 w2 where f2: "f \<lparr>number = 2, size' = ps\<rparr> w1 = (r2, w2)"
    by (cases "f \<lparr>number = 2, size' = ps\<rparr> w1")
  have d1: "data r1 = [a, b]" "more_pages (meta r1)"
    using p1 [of "\<lparr>number = 1, size' = ps\<rparr>" w] f1 by (auto simp: more_pages_def)
  have d2: "data r2 = [c, d]" "\<not> more_pages (meta r2)"
    using p2 [of "\<lparr>number = 2, size' = ps\<rparr>" w1] f2 by (auto simp: more_pages_def)
  have it0: "createPaginatedIterator f options =
      \<lparr> it_fetcher = f, it_pageSize = ps, it_maxItems = None, it_currentPage = 1,
        it_currentItems = [], it_currentIndex = 0, it_totalReturned = 0, it_hasMore = True,
        it_meta = None, it_fetched = [] \<rparr>"
    by (simp add: ps_def createPaginatedIterator_def opts or_default_def)
  show ?thesis
    unfolding it0 toArray_def
    by (simp add: toArray_loop.simps iterator_next_def capped_def fetch_loop_once
        fetch_page_def exhausted_def f1 f2 d1 d2)
qed

theorem paginated_two_pages_witness:
  "\<exists>it' w'. toArray (createPaginatedIterator two_page_fetcher no_options) ()
               = Some ([1, 2, 3, 4], it', w')
           \<and> map (\<lambda>(p, r). number p) (it_fetched it') = [1, 2]"
  using paginated_two_pages [of two_page_fetcher 1 2 3 4 no_options "()"]
  by (simp add: two_page_fetcher_def no_options_def)

subsection \<open>Draining\<close>

lemma all_items_snoc: "all_items (fs @ [(p, r)]) = all_items fs @ data r"
  by (simp add: all_items_def)

lemma drain_inv_initial: "drain_inv (createPaginatedIterator f options) []"
  by (simp add: drain_inv_def createPaginatedIterator_def all_items_def split: option.splits)

lemma next_cases:
  obtains (capped) "capped it" "iterator_next it w = (None, it, w)"
  | (yield) "\<not> capped it" "\<not> exhausted it"
      "iterator_next it w =
         (Some (it_currentItems it ! it_currentIndex it),
          it \<lparr> it_currentIndex := it_currentIndex it + 1,
               it_totalReturned := it_totalReturned it + 1 \<rparr>, w)"
  | (finished) "\<not> capped it" "exhausted it" "\<not> it_hasMore it" "iterator_next it w = (None, it, w)"
  | (fetch_empty) it' w' where "\<not> capped it" "exhausted it" "it_hasMore it"
      "fetch_page it w = (it', w')" "it_currentItems it' = []" "iterator_next it w = (None, it', w')"
  | (fetch_yield) it' w' where "\<not> capped it" "exhausted it" "it_hasMore it"
      "fetch_page it w = (it', w')" "it_currentItems it' \<noteq> []"
      "iterator_next it w =
         (Some (hd (it_currentItems it')),
          it' \<lparr> it_currentIndex := 1, it_totalReturned := it_totalReturned it + 1 \<rparr>, w')"
proof -
  obtain it' w' where fp: "fetch_page it w = (it', w')" by (cases "fetch_page it w")
  show thesis
  proof (cases "capped it")
    case True
    show ?thesis by (rule capped [OF True next_capped [OF True]])
  next
    case nc: False
    show ?thesis
    proof (cases "exhausted it")
      case False
      show ?thesis by (rule yield [OF nc False next_yield [OF nc False]])
    next
      case ex: True
      show ?thesis
      proof (cases "it_hasMore it")
        case False
        show ?thesis by (rule finished [OF nc ex False next_finished [OF nc ex False]])
      next
        case hm: True
        show ?thesis
        proof (cases "it_currentItems it' = []")
          case True
          show ?thesis
            by (rule fetch_empty [OF nc ex hm fp True next_fetch_empty [OF nc ex hm fp True]])
        next
          case False
          show ?thesis
            by (rule fetch_yield [OF nc ex hm fp False next_fetch_yield [OF nc ex hm fp False]])
        qed
      qed
    qed
  qed
qed

lemma drain_inv_fetch:
  assumes inv: "drain_inv it acc" and nc: "\<not> capped it" and ex: "exhausted it"
    and fp: "fetch_page it w = (it', w')"
  shows "drain_inv it' acc" and "it_totalReturned it' = length (all_items (it_fetched it))"
proof -
  from fetch_page_fields(7) [OF fp] obtain r where
    r: "it_fetched it' = it_fetched it @ [(\<lparr>number = it_currentPage it, size' = it_pageSize it\<rparr>, r)]"
       "it_currentItems it' = data r"
    by blast
  have tot: "it_totalReturned it = length (all_items (it_fetched it))"
    using inv ex by (simp add: drain_inv_def exhausted_def)
  have t': "it_totalReturned it' = it_totalReturned it" "it_currentIndex it' = 0"
       "it_maxItems it' = it_maxItems it"
    using fetch_page_fields [OF fp] by simp_all
  show "it_totalReturned it' = length (all_items (it_fetched it))"
    using tot t' by simp
  show "drain_inv it' acc"
    using inv nc tot t' r
    by (auto simp: drain_inv_def capped_def all_items_snoc split: option.splits)
qed

lemma drain_inv_next:
  assumes inv: "drain_inv it acc" and nx: "iterator_next it w = (res, it', w')"
  shows "it_maxItems it' = it_maxItems it \<and>
         (case res of
            None \<Rightarrow> drain_inv it' acc \<and> drained it'
          | Some x \<Rightarrow> drain_inv it' (acc @ [x])
                \<and> it_totalReturned it' = Suc (it_totalReturned it) \<and> \<not> capped it)"
proof (cases it w rule: next_cases)
  case capped
  with inv nx show ?thesis by (simp add: drained_def)
next
  case yield
  have lt: "it_totalReturned it < length (all_items (it_fetched it))"
    using inv yield(2) by (simp add: drain_inv_def exhausted_def)
  have nth: "all_items (it_fetched it) ! it_totalReturned it
               = it_currentItems it ! it_currentIndex it"
    using inv by (simp add: drain_inv_def nth_append)
  show ?thesis
    using inv nx yield lt nth
    by (auto simp: drain_inv_def exhausted_def capped_def take_Suc_conv_app_nth
        split: option.splits)
next
  case finished
  with inv nx show ?thesis
    by (auto simp: drained_def drain_inv_def exhausted_def)
next
  case (fetch_empty it1 w1)
  have a: "drain_inv it1 acc" "it_totalReturned it1 = length (all_items (it_fetched it))"
    using drain_inv_fetch [OF inv fetch_empty(1,2,4)] by simp_all
  have "it_currentIndex it1 = 0" "it_maxItems it1 = it_maxItems it"
    using fetch_page_fields [OF fetch_empty(4)] by simp_all
  with a fetch_empty(5,6) nx show ?thesis
    by (auto simp: drained_def drain_inv_def)
next
  case (fetch_yield it1 w1)
  have a: "drain_inv it1 acc" "it_totalReturned it1 = length (all_items (it_fetched it))"
    using drain_inv_fetch [OF inv fetch_yield(1,2,4)] by simp_all
  have f: "it_currentIndex it1 = 0" "it_maxItems it1 = it_maxItems it"
       "it_totalReturned it1 = it_totalReturned it"
    using fetch_page_fields [OF fetch_yield(4)] by simp_all
  have nth: "all_items (it_fetched it1) ! it_totalReturned it1 = hd (it_currentItems it1)"
    using a(1) f(1) fetch_yield(5) by (simp add: drain_inv_def nth_append hd_conv_nth)
  have lt: "it_totalReturned it1 < length (all_items (it_fetched it1))"
    using a(1) f(1) fetch_yield(5) by (simp add: drain_inv_def)
  show ?thesis
    using a f nx fetch_yield(1,5,6) nth lt
    by (auto simp: drain_inv_def capped_def take_Suc_conv_app_nth hd_conv_nth Suc_le_eq
        split: option.splits)
qed


lemma toArray_loop_partial:
  assumes run: "toArray_loop it w acc = Some (xs, it', w')" and inv: "drain_inv it acc"
  shows "drain_inv it' xs \<and> drained it' \<and> it_maxItems it' = it_maxItems it"
proof -
  have "drain_inv it acc \<longrightarrow>
        (case (xs, it', w') of (ys, it2, w2) \<Rightarrow>
           drain_inv it2 ys \<and> drained it2 \<and> it_maxItems it2 = it_maxItems it)"
  proof (rule toArray_loop.raw_induct
      [where P = "\<lambda>it w acc res. drain_inv it acc \<longrightarrow>
          (case res of (ys, it2, w2) \<Rightarrow>
             drain_inv it2 ys \<and> drained it2 \<and> it_maxItems it2 = it_maxItems it)", OF _ run])
    fix loop :: "('a, 'b) iterator \<Rightarrow> 'b \<Rightarrow> 'a list \<Rightarrow> ('a list \<times> ('a, 'b) iterator \<times> 'b) option"
    fix i :: "('a, 'b) iterator" and v :: 'b and ac :: "'a list"
      and res :: "'a list \<times> ('a, 'b) iterator \<times> 'b"
    assume IH: "\<And>i v ac res. loop i v ac = Some res \<Longrightarrow> drain_inv i ac \<longrightarrow>
          (case res of (ys, it2, w2) \<Rightarrow>
             drain_inv it2 ys \<and> drained it2 \<and> it_maxItems it2 = it_maxItems i)"
    assume step: "(case iterator_next i v of
                     (None, it', w') \<Rightarrow> Some (ac, it', w')
                   | (Some item, it', w') \<Rightarrow> loop it' w' (ac @ [item])) = Some res"
    show "drain_inv i ac \<longrightarrow>
          (case res of (ys, it2, w2) \<Rightarrow>
             drain_inv it2 ys \<and> drained it2 \<and> it_maxItems it2 = it_maxItems i)"
    proof
      assume di: "drain_inv i ac"
      obtain r it1 w1 where nx: "iterator_next i v = (r, it1, w1)"
        by (cases "iterator_next i v")
      note st = drain_inv_next [OF di nx]
      show "case res of (ys, it2, w2) \<Rightarrow>
             drain_inv it2 ys \<and> drained it2 \<and> it_maxItems it2 = it_maxItems i"
      proof (cases r)
        case None
        with nx step st show ?thesis by auto
      next
        case (Some x)
        with nx step have "loop it1 w1 (ac @ [x]) = Some res" by simp
        from IH [OF this] st Some show ?thesis by (auto split: prod.splits)
      qed
    qed
  qed
  with inv show ?thesis by simp
qed

lemma toArray_loop_capped:
  assumes "it_maxItems it = Some m" and "drain_inv it acc"
  shows "\<exists>res. toArray_loop it w acc = Some res"
  using assms
proof (induction "nat (m - int (it_totalReturned it))" arbitrary: it w acc rule: less_induct)
  case less
  obtain r it1 w1 where nx: "iterator_next it w = (r, it1, w1)"
    by (cases "iterator_next it w")
  note st = drain_inv_next [OF less.prems(2) nx]
  show ?case
  proof (cases r)
    case None
    with nx show ?thesis by (subst toArray_loop.simps) simp
  next
    case (Some x)
    with st have a: "drain_inv it1 (acc @ [x])" "it_totalReturned it1 = Suc (it_totalReturned it)"
        "\<not> capped it" "it_maxItems it1 = Some m"
      using less.prems(1) by auto
    from a(3) less.prems(1) have "int (it_totalReturned it) < m" by (simp add: capped_def)
    with a(2) have "nat (m - int (it_totalReturned it1)) < nat (m - int (it_totalReturned it))"
      by simp
    from less.hyps [OF this a(4) a(1)]
    obtain res where r: "toArray_loop it1 w1 (acc @ [x]) = Some res"
      by blast
    have "toArray_loop it w acc = toArray_loop it1 w1 (acc @ [x])"
      by (subst toArray_loop.simps) (simp add: nx Some)
    with r have "toArray_loop it w acc = Some res" by simp
    then show ?thesis ..
  qed
qed

lemma drained_result:
  assumes "drain_inv it xs" "drained it" "it_maxItems it = Some m"
  shows "xs = take (nat m) (all_items (it_fetched it))"
  using assms by (auto simp: drain_inv_def drained_def capped_def max_def nat_int_add split: if_splits)

text \<open>Without an item cap, a drain that ends has handed out all items of all fetched pages.\<close>

lemma collectAll_items:
  assumes "collectAll f options w = Some (xs, it', w')" and "maxItems options = None"
  shows "xs = all_items (it_fetched it')"
proof -
  let ?it = "createPaginatedIterator f options"
  from assms(1) have run: "toArray_loop ?it w [] = Some (xs, it', w')"
    by (simp add: collectAll_def toArray_def)
  from toArray_loop_partial [OF run drain_inv_initial] assms(2)
  have "drain_inv it' xs" "drained it'" "it_maxItems it' = None"
    by (simp_all add: createPaginatedIterator_def)
  then show ?thesis
    by (simp add: drain_inv_def drained_def capped_def)
qed

lemma take_returns:
  "\<exists>xs it' w'. take' f n options w = Some (xs, it', w')
      \<and> xs = take (nat n) (all_items (it_fetched it'))
      \<and> (it_fetched it' = [] \<or> int (length (all_items (butlast (it_fetched it')))) < n)"
proof -
  let ?it = "createPaginatedIterator f (options \<lparr> maxItems := Some n \<rparr>)"
  have m: "it_maxItems ?it = Some n" by (simp add: createPaginatedIterator_def)
  have inv: "drain_inv ?it []" by (rule drain_inv_initial)
  from toArray_loop_capped [OF m inv] obtain res where r: "toArray_loop ?it w [] = Some res"
    by blast
  obtain xs it' w' where res: "res = (xs, it', w')" by (cases res)
  from toArray_loop_partial [OF r [unfolded res] inv] m
  have fin: "drain_inv it' xs" "drained it'" "it_maxItems it' = Some n" by auto
  from drained_result [OF fin] fin(1,3) r res show ?thesis
    by (auto simp: take'_def toArray_def drain_inv_def)
qed

lemma take_thirty:
  "\<exists>it'. take' thirty_item_fetcher 3 no_options () = Some ([1, 2, 3], it', ())
         \<and> length (it_fetched it') = 1"
  by (simp add: take'_def toArray_def toArray_loop.simps iterator_next_def capped_def
      fetch_loop_once fetch_page_def exhausted_def createPaginatedIterator_def no_options_def
      thirty_item_fetcher_def or_default_def DEFAULT_PAGE_SIZE_def MAX_PAGE_SIZE_def
      more_pages_def)

subsection \<open>The calls a drain makes\<close>

lemma more_pages_iff:
  "more_pages m \<longleftrightarrow> (\<exists>mt nx. m = Some mt \<and> nextPage mt = Some nx)"
  by (cases m) (auto simp: more_pages_def)

lemma in_butlast_or_last: "x \<in> set xs \<Longrightarrow> x \<in> set (butlast xs) \<or> x = last xs"
  by (induction xs) auto

lemma fetch_run_length: "length (fst (fetch_run f ps p w k)) = k"
  by (induction k) (auto split: prod.splits)

lemma fetch_run_prefix:
  "j \<le> k \<Longrightarrow> fst (fetch_run f ps p w j) = take j (fst (fetch_run f ps p w k))"
proof (induction k)
  case 0
  then show ?case by simp
next
  case (Suc k)
  show ?case
  proof (cases "j = Suc k")
    case True
    with fetch_run_length [of f ps p w "Suc k"] show ?thesis
      by simp
  next
    case False
    with Suc.prems have jk: "j \<le> k" by simp
    obtain run w' where r: "fetch_run f ps p w k = (run, w')"
      by (cases "fetch_run f ps p w k")
    with fetch_run_length [of f ps p w k] have "length run = k" by simp
    with Suc.IH [OF jk] r jk show ?thesis
      by (auto split: prod.splits)
  qed
qed

lemma all_items_append: "all_items (xs @ ys) = all_items xs @ all_items ys"
  by (simp add: all_items_def)

lemma all_items_take_le: "length (all_items (take j xs)) \<le> length (all_items xs)"
proof -
  have "all_items xs = all_items (take j xs) @ all_items (drop j xs)"
    unfolding all_items_append [symmetric] by simp
  then show ?thesis
    by simp
qed

lemma toArray_loop_rule:
  assumes run: "toArray_loop it w acc = Some (xs, it', w')"
    and init: "I it w acc"
    and step: "\<And>i v ac r it1 w1. I i v ac \<Longrightarrow> iterator_next i v = (r, it1, w1) \<Longrightarrow>
        (case r of None \<Rightarrow> Q it1 w1 ac | Some x \<Rightarrow> I it1 w1 (ac @ [x]))"
  shows "Q it' w' xs"
proof -
  have "I it w acc \<longrightarrow> (case (xs, it', w') of (ys, it2, w2) \<Rightarrow> Q it2 w2 ys)"
  proof (rule toArray_loop.raw_induct
      [where P = "\<lambda>it w acc res. I it w acc \<longrightarrow> (case res of (ys, it2, w2) \<Rightarrow> Q it2 w2 ys)",
        OF _ run])
    fix loop :: "('a, 'b) iterator \<Rightarrow> 'b \<Rightarrow> 'a list \<Rightarrow> ('a list \<times> ('a, 'b) iterator \<times> 'b) option"
    fix i :: "('a, 'b) iterator" and v :: 'b and ac :: "'a list"
      and res :: "'a list \<times> ('a, 'b) iterator \<times> 'b"
    assume IH: "\<And>i v ac res. loop i v ac = Some res \<Longrightarrow>
          I i v ac \<longrightarrow> (case res of (ys, it2, w2) \<Rightarrow> Q it2 w2 ys)"
    assume st: "(case iterator_next i v of
                     (None, it', w') \<Rightarrow> Some (ac, it', w')
                   | (Some item, it', w') \<Rightarrow> loop it' w' (ac @ [item])) = Some res"
    show "I i v ac \<longrightarrow> (case res of (ys, it2, w2) \<Rightarrow> Q it2 w2 ys)"
    proof
      assume inv: "I i v ac"
      obtain r it1 w1 where nx: "iterator_next i v = (r, it1, w1)"
        by (cases "iterator_next i v")
      note s = step [OF inv nx]
      show "case res of (ys, it2, w2) \<Rightarrow> Q it2 w2 ys"
      proof (cases r)
        case None
        with nx st s show ?thesis by auto
      next
        case (Some x)
        with nx st have "loop it1 w1 (ac @ [x]) = Some res" by simp
        from IH [OF this] s Some show ?thesis by simp
      qed
    qed
  qed
  with init show ?thesis by simp
qed

lemma run_inv_initial:
  "run_inv f (it_pageSize (createPaginatedIterator f options))
     (it_currentPage (createPaginatedIterator f options)) w
     (createPaginatedIterator f options) w"
  by (simp add: run_inv_def createPaginatedIterator_def)

lemma run_inv_fetch:
  assumes inv: "run_inv f ps p w0 it w"
    and full: "it_fetched it \<noteq> [] \<longrightarrow> it_currentItems it \<noteq> []"
    and more: "it_hasMore it"
    and fp: "fetch_page it w = (it', w')"
  shows "run_inv f ps p w0 it' w'" and "it_fetched it' \<noteq> []"
proof -
  let ?params = "\<lparr>number = p + int (length (it_fetched it)), size' = ps\<rparr>"
  obtain r where r: "f ?params w = (r, w')"
      "it_fetched it' = it_fetched it @ [(?params, r)]"
      "it_currentItems it' = data r" "it_hasMore it' = more_pages (meta r)"
      "it_fetcher it' = f" "it_pageSize it' = ps"
      "it_currentPage it' = p + int (length (it_fetched it)) + 1"
    using fp inv by (auto simp: fetch_page_def run_inv_def Let_def split: prod.splits)
  from r(2) show "it_fetched it' \<noteq> []" by simp
  have run: "fetch_run f ps p w0 (length (it_fetched it')) = (it_fetched it', w')"
    using inv r(1,2) by (simp add: run_inv_def)
  have before: "data x \<noteq> [] \<and> more_pages (meta x)" if "(q, x) \<in> set (it_fetched it)" for q x
  proof -
    from that have ne: "it_fetched it \<noteq> []" by auto
    from in_butlast_or_last [OF that]
    show ?thesis
    proof
      assume "(q, x) \<in> set (butlast (it_fetched it))"
      with inv show ?thesis by (auto simp: run_inv_def)
    next
      assume "(q, x) = last (it_fetched it)"
      then have "x = snd (last (it_fetched it))" by (metis snd_conv)
      with inv ne full more show ?thesis by (simp add: run_inv_def)
    qed
  qed
  show "run_inv f ps p w0 it' w'"
    unfolding run_inv_def using r run before by auto
qed

lemma run_inv_next:
  assumes inv: "run_inv f ps p w0 it w"
    and full: "it_fetched it \<noteq> [] \<longrightarrow> it_currentItems it \<noteq> []"
    and nx: "iterator_next it w = (r, it1, w1)"
  shows "run_inv f ps p w0 it1 w1
         \<and> (case r of None \<Rightarrow> stopped it1
             | Some x \<Rightarrow> it_fetched it1 \<noteq> [] \<longrightarrow> it_currentItems it1 \<noteq> [])"
proof (cases it w rule: next_cases)
  case capped
  with inv nx show ?thesis by (auto simp: stopped_def)
next
  case yield
  with nx have "it1 = it \<lparr> it_currentIndex := it_currentIndex it + 1,
      it_totalReturned := it_totalReturned it + 1 \<rparr>" "w1 = w" "r \<noteq> None"
    by auto
  with inv full show ?thesis
    by (auto simp: run_inv_def)
next
  case finished
  with inv nx show ?thesis by (auto simp: stopped_def)
next
  case (fetch_empty it2 w2)
  from run_inv_fetch [OF inv full fetch_empty(3,4)] fetch_empty(5,6) nx show ?thesis
    by (auto simp: stopped_def)
next
  case (fetch_yield it2 w2)
  from fetch_yield(6) nx have eq: "it1 = it2 \<lparr> it_currentIndex := 1,
      it_totalReturned := it_totalReturned it + 1 \<rparr>" "w1 = w2" "r \<noteq> None"
    by auto
  from run_inv_fetch(1) [OF inv full fetch_yield(3,4)] have "run_inv f ps p w0 it1 w1"
    unfolding eq by (simp add: run_inv_def)
  with eq fetch_yield(5) show ?thesis
    by auto
qed

text \<open>
  A drain that ends leaves the cursor with both invariants, drained, and stopped for one
  of the three reasons.
\<close>

lemma toArray_loop_final:
  assumes run: "toArray_loop it w [] = Some (xs, it', w')"
    and d: "drain_inv it []" and ri: "run_inv f ps p w it w" and e: "it_fetched it = []"
  shows "drain_inv it' xs \<and> drained it' \<and> it_maxItems it' = it_maxItems it
         \<and> run_inv f ps p w it' w' \<and> stopped it'"
proof (rule toArray_loop_rule
    [where I = "\<lambda>i v ac. drain_inv i ac \<and> it_maxItems i = it_maxItems it
                  \<and> run_inv f ps p w i v \<and> (it_fetched i \<noteq> [] \<longrightarrow> it_currentItems i \<noteq> [])"
       and Q = "\<lambda>i v ac. drain_inv i ac \<and> drained i \<and> it_maxItems i = it_maxItems it
                  \<and> run_inv f ps p w i v \<and> stopped i", OF run])
  show "drain_inv it [] \<and> it_maxItems it = it_maxItems it \<and> run_inv f ps p w it w
      \<and> (it_fetched it \<noteq> [] \<longrightarrow> it_currentItems it \<noteq> [])"
    using d ri e by simp
next
  fix i :: "('a, 'b) iterator" and v :: 'b and ac :: "'a list" and r :: "'a option"
    and it1 :: "('a, 'b) iterator" and w1 :: 'b
  assume inv: "drain_inv i ac \<and> it_maxItems i = it_maxItems it \<and> run_inv f ps p w i v
      \<and> (it_fetched i \<noteq> [] \<longrightarrow> it_currentItems i \<noteq> [])"
    and nx: "iterator_next i v = (r, it1, w1)"
  from inv have a: "drain_inv i ac" and b: "run_inv f ps p w i v"
    and c: "it_fetched i \<noteq> [] \<longrightarrow> it_currentItems i \<noteq> []"
    and m: "it_maxItems i = it_maxItems it"
    by simp_all
  note s1 = drain_inv_next [OF a nx]
  note s2 = run_inv_next [OF b c nx]
  show "case r of
          None \<Rightarrow> drain_inv it1 ac \<and> drained it1 \<and> it_maxItems it1 = it_maxItems it
              \<and> run_inv f ps p w it1 w1 \<and> stopped it1
        | Some x \<Rightarrow> drain_inv it1 (ac @ [x]) \<and> it_maxItems it1 = it_maxItems it
              \<and> run_inv f ps p w it1 w1 \<and> (it_fetched it1 \<noteq> [] \<longrightarrow> it_currentItems it1 \<noteq> [])"
    using s1 s2 m by (cases r) simp_all
qed

text \<open>
  The calls of \<open>take\<close>. When the first \<open>k\<close> pages of the source are such that the pages
  before the last of them hold items, announce a next page and hold fewer than \<open>n\<close> items
  together, and the last of them reaches \<open>n\<close> items, is empty or announces no next page,
  then \<open>take\<close> makes exactly these \<open>k\<close> calls and returns the first \<open>n\<close> items of these
  pages.
\<close>

lemma take_calls:
  fixes f :: "('a, 'w) PageFetcher"
  assumes run: "fetch_run f (it_pageSize (createPaginatedIterator f options))
                  (it_currentPage (createPaginatedIterator f options)) w k = (run, wk)"
    and k: "0 < k"
    and before: "\<forall>(q, r) \<in> set (butlast run). data r \<noteq> [] \<and> more_pages (meta r)"
    and few: "int (length (all_items (butlast run))) < n"
    and final: "n \<le> int (length (all_items run)) \<or> data (snd (last run)) = []
                \<or> \<not> more_pages (meta (snd (last run)))"
  shows "\<exists>it'. take' f n options w = Some (take (nat n) (all_items run), it', wk)
           \<and> it_fetched it' = run"
proof -
  let ?opts = "options \<lparr> maxItems := Some n \<rparr>"
  let ?it = "createPaginatedIterator f ?opts"
  let ?ps = "it_pageSize (createPaginatedIterator f options)"
  let ?p = "it_currentPage (createPaginatedIterator f options)"
  have m: "it_maxItems ?it = Some n" by (simp add: createPaginatedIterator_def)
  have same: "it_pageSize ?it = ?ps" "it_currentPage ?it = ?p" "it_fetched ?it = []"
    by (simp_all add: createPaginatedIterator_def)
  have inv: "drain_inv ?it []" by (rule drain_inv_initial)
  have ri: "run_inv f ?ps ?p w ?it w"
    using run_inv_initial [of f ?opts w] same by simp
  from toArray_loop_capped [OF m inv] obtain res where r: "toArray_loop ?it w [] = Some res"
    by blast
  obtain xs it' w' where res: "res = (xs, it', w')" by (cases res)
  from toArray_loop_final [OF r [unfolded res] inv ri same(3)] m
  have fin: "drain_inv it' xs" "drained it'" "it_maxItems it' = Some n"
    and log: "run_inv f ?ps ?p w it' w'" and stop: "stopped it'"
    by simp_all
  define j where "j = length (it_fetched it')"
  from log have fr: "fetch_run f ?ps ?p w j = (it_fetched it', w')"
    by (simp add: run_inv_def j_def)
  from run fetch_run_length [of f ?ps ?p w k] have len: "length run = k" by simp
  have "j = k"
  proof (rule ccontr)
    assume "j \<noteq> k"
    then consider "j < k" | "k < j" by linarith
    then show False
    proof cases
      case 1
      with fetch_run_prefix [of j k f ?ps ?p w] fr run
      have pre: "it_fetched it' = take j run" by simp
      from 1 len have pre2: "it_fetched it' = take j (butlast run)"
        by (subst pre) (simp add: take_butlast)
      have sub: "set (it_fetched it') \<subseteq> set (butlast run)"
        by (subst pre2) (rule set_take_subset)
      have le: "length (all_items (it_fetched it')) \<le> length (all_items (butlast run))"
        by (subst pre2) (rule all_items_take_le)
      from stop show False
        unfolding stopped_def
      proof (elim disjE conjE)
        assume "capped it'"
        with fin(3) have "n \<le> int (it_totalReturned it')" by (simp add: capped_def)
        moreover from fin(1) have "it_totalReturned it' \<le> length (all_items (it_fetched it'))"
          by (simp add: drain_inv_def)
        ultimately show False using le few by simp
      next
        assume ex: "exhausted it'" and nm: "\<not> it_hasMore it'"
        from log nm have ne: "it_fetched it' \<noteq> []" by (auto simp: run_inv_def)
        with log nm have "\<not> more_pages (meta (snd (last (it_fetched it'))))"
          by (simp add: run_inv_def)
        moreover from ne sub have "last (it_fetched it') \<in> set (butlast run)"
          using last_in_set by blast
        ultimately show False using before by (auto simp: case_prod_beta)
      next
        assume em: "it_currentItems it' = []" and ne: "it_fetched it' \<noteq> []"
        with log have "data (snd (last (it_fetched it'))) = []"
          by (simp add: run_inv_def)
        moreover from ne sub have "last (it_fetched it') \<in> set (butlast run)"
          using last_in_set by blast
        ultimately show False using before by (auto simp: case_prod_beta)
      qed
    next
      case 2
      with fetch_run_prefix [of k j f ?ps ?p w] fr run
      have pre: "run = take k (it_fetched it')" by simp
      from 2 have pre2: "run = take k (butlast (it_fetched it'))"
        unfolding pre by (simp add: take_butlast j_def)
      from k len have rne: "run \<noteq> []" by auto
      have sub: "set run \<subseteq> set (butlast (it_fetched it'))"
        by (subst pre2) (rule set_take_subset)
      with rne have "last run \<in> set (butlast (it_fetched it'))"
        using last_in_set by blast
      with log have "data (snd (last run)) \<noteq> [] \<and> more_pages (meta (snd (last run)))"
        by (auto simp: run_inv_def case_prod_beta)
      with final have reach: "n \<le> int (length (all_items run))" by simp
      have le: "length (all_items run) \<le> length (all_items (butlast (it_fetched it')))"
        by (subst pre2) (rule all_items_take_le)
      from 2 have "it_fetched it' \<noteq> []" by (auto simp: j_def)
      with fin(1,3) have "int (length (all_items (butlast (it_fetched it')))) < n"
        by (simp add: drain_inv_def)
      with le reach show False by simp
    qed
  qed
  with fr run have eq: "it_fetched it' = run" "w' = wk" by simp_all
  from drained_result [OF fin] eq have "xs = take (nat n) (all_items run)" by simp
  with r res eq show ?thesis
    by (simp add: take'_def toArray_def)
qed

lemma take_nothing:
  assumes "n \<le> 0"
  shows "\<exists>it'. take' f n options w = Some ([], it', w) \<and> it_fetched it' = []"
proof -
  let ?it = "createPaginatedIterator f (options \<lparr> maxItems := Some n \<rparr>)"
  from assms have "capped ?it" by (simp add: capped_def createPaginatedIterator_def)
  then have "iterator_next ?it w = (None, ?it, w)" by (rule next_capped)
  then have "toArray_loop ?it w [] = Some ([], ?it, w)"
    by (subst toArray_loop.simps) simp
  then show ?thesis
    by (simp add: take'_def toArray_def createPaginatedIterator_def)
qed

lemma take_thirty_in_twos:
  "\<exists>it'. take' thirty_in_twos_fetcher 3 no_options 0 = Some ([1, 2, 3], it', 2)
         \<and> map (number \<circ> fst) (it_fetched it') = [1, 2]"
  by (simp add: take'_def toArray_def toArray_loop.simps iterator_next_def capped_def
      fetch_loop_once fetch_page_def exhausted_def createPaginatedIterator_def no_options_def
      thirty_in_twos_fetcher_def or_default_def DEFAULT_PAGE_SIZE_def MAX_PAGE_SIZE_def
      more_pages_def)

text \<open>
  Claim C9. For every fetch function and count \<open>n\<close>, \<open>take\<close> returns exactly what the
  item iterator built with \<open>maxItems = n\<close> (and the same other options) gives when drained
  to an array, and it always returns. What it returns and what it fetches is fixed by
  the source: when the first \<open>k\<close> pages of the source, from the start page on, are such
  that the pages before the last hold items, announce a next page and hold fewer than
  \<open>n\<close> items together, and the last one reaches \<open>n\<close> items (or is empty, or announces no
  next page), then \<open>take\<close> calls the fetch function exactly for these \<open>k\<close> pages and
  returns the first \<open>n\<close> items of them: exactly \<open>n\<close> items when the pages hold that many,
  and no page is fetched once \<open>n\<close> items are at hand. For \<open>n \<le> 0\<close> it returns no item and
  fetches nothing. In particular, on a source of thirty items \<open>take\<close> of 3 yields exactly
  the items 1, 2, 3, after one call when the pages hold three items and after two calls
  when they hold two.
\<close>

theorem take_is_capped_drain:
  "take' f n options w = toArray (createPaginatedIterator f (options \<lparr> maxItems := Some n \<rparr>)) w
   \<and> (\<exists>xs it' w'. take' f n options w = Some (xs, it', w')
         \<and> xs = take (nat n) (all_items (it_fetched it'))
         \<and> (it_fetched it' = [] \<or> int (length (all_items (butlast (it_fetched it')))) < n))
   \<and> (fetch_run f (it_pageSize (createPaginatedIterator f options))
          (it_currentPage (createPaginatedIterator f options)) w k = (run, wk)
        \<and> 0 < k
        \<and> (\<forall>(q, r) \<in> set (butlast run).
              data r \<noteq> [] \<and> (\<exists>mt nx. meta r = Some mt \<and> nextPage mt = Some nx))
        \<and> int (length (all_items (butlast run))) < n
        \<and> (n \<le> int (length (all_items run)) \<or> data (snd (last run)) = []
           \<or> meta (snd (last run)) = None
           \<or> (\<exists>mt. meta (snd (last run)) = Some mt \<and> nextPage mt = None))
        \<longrightarrow> (\<exists>it'. take' f n options w = Some (take (nat n) (all_items run), it', wk)
               \<and> it_fetched it' = run
               \<and> (n \<le> int (length (all_items run)) \<longrightarrow>
                    int (length (take (nat n) (all_items run))) = n)))
   \<and> (n \<le> 0 \<longrightarrow> (\<exists>it'. take' f n options w = Some ([], it', w) \<and> it_fetched it' = []))
   \<and> (\<exists>it'. take' thirty_item_fetcher 3 no_options () = Some ([1, 2, 3], it', ())
         \<and> length (it_fetched it') = 1)
   \<and> (\<exists>it'. take' thirty_in_twos_fetcher 3 no_options 0 = Some ([1, 2, 3], it', 2)
         \<and> map (number \<circ> fst) (it_fetched it') = [1, 2])"
proof (intro conjI impI)
  show "take' f n options w
      = toArray (createPaginatedIterator f (options \<lparr> maxItems := Some n \<rparr>)) w"
    by (simp add: take'_def)
next
  show "\<exists>xs it' w'. take' f n options w = Some (xs, it', w')
         \<and> xs = take (nat n) (all_items (it_fetched it'))
         \<and> (it_fetched it' = [] \<or> int (length (all_items (butlast (it_fetched it')))) < n)"
    by (rule take_returns)
next
  assume h: "fetch_run f (it_pageSize (createPaginatedIterator f options))
          (it_currentPage (createPaginatedIterator f options)) w k = (run, wk)
        \<and> 0 < k
        \<and> (\<forall>(q, r) \<in> set (butlast run).
              data r \<noteq> [] \<and> (\<exists>mt nx. meta r = Some mt \<and> nextPage mt = Some nx))
        \<and> int (length (all_items (butlast run))) < n
        \<and> (n \<le> int (length (all_items run)) \<or> data (snd (last run)) = []
           \<or> meta (snd (last run)) = None
           \<or> (\<exists>mt. meta (snd (last run)) = Some mt \<and> nextPage mt = None))"
  then have run: "fetch_run f (it_pageSize (createPaginatedIterator f options))
          (it_currentPage (createPaginatedIterator f options)) w k = (run, wk)"
    and k: "0 < k" and few: "int (length (all_items (butlast run))) < n"
    by simp_all
  from h have before: "\<forall>(q, r) \<in> set (butlast run). data r \<noteq> [] \<and> more_pages (meta r)"
    unfolding more_pages_iff by simp
  from h have final: "n \<le> int (length (all_items run)) \<or> data (snd (last run)) = []
      \<or> \<not> more_pages (meta (snd (last run)))"
    unfolding more_pages_iff by auto
  from take_calls [OF run k before few final]
  obtain it' where "take' f n options w = Some (take (nat n) (all_items run), it', wk)"
      "it_fetched it' = run"
    by blast
  then show "\<exists>it'. take' f n options w = Some (take (nat n) (all_items run), it', wk)
               \<and> it_fetched it' = run
               \<and> (n \<le> int (length (all_items run)) \<longrightarrow>
                    int (length (take (nat n) (all_items run))) = n)"
    using few by auto
next
  assume "n \<le> 0"
  then show "\<exists>it'. take' f n options w = Some ([], it', w) \<and> it_fetched it' = []"
    by (rule take_nothing)
next
  show "\<exists>it'. take' thirty_item_fetcher 3 no_options () = Some ([1, 2, 3], it', ())
         \<and> length (it_fetched it') = 1"
    by (rule take_thirty)
next
  show "\<exists>it'. take' thirty_in_twos_fetcher 3 no_options 0 = Some ([1, 2, 3], it', 2)
         \<and> map (number \<circ> fst) (it_fetched it') = [1, 2]"
    by (rule take_thirty_in_twos)
qed

text \<open>
  On the thirty items in pages of two, \<open>take\<close> of 5 calls the fetch function for the
  pages 1, 2 and 3 and returns the items 1 to 5; on the two pages of two items, \<open>take\<close>
  of 10 stops after the second page, which announces no further page, with the four
  items; and \<open>take\<close> of 0 calls nothing.
\<close>

theorem take_is_capped_drain_witness:
  "(\<exists>it'. take' thirty_in_twos_fetcher 5 no_options 0 = Some ([1, 2, 3, 4, 5], it', 3)
        \<and> map (number \<circ> fst) (it_fetched it') = [1, 2, 3])
   \<and> (\<exists>it'. take' two_page_fetcher 10 no_options () = Some ([1, 2, 3, 4], it', ())
        \<and> map (number \<circ> fst) (it_fetched it') = [1, 2])
   \<and> (\<exists>it'. take' thirty_in_twos_fetcher 0 no_options 0 = Some ([], it', 0)
        \<and> it_fetched it' = [])"
proof -
  let ?ps = "it_pageSize (createPaginatedIterator thirty_in_twos_fetcher no_options)"
  let ?p = "it_currentPage (createPaginatedIterator thirty_in_twos_fetcher no_options)"
  let ?page = "\<lambda>i::int. (\<lparr>number = i, size' = 50\<rparr>,
      \<lparr>data = [2 * i - 1, 2 * i],
       meta = Some \<lparr>currentPage = i, nextPage = Some (i + 1),
                    prevPage = (if 1 < i then Some (i - 1) else None),
                    totalPages = 15, totalCount = 30\<rparr>\<rparr>)"
  let ?run = "[?page 1, ?page 2, ?page 3]"
  have run: "fetch_run thirty_in_twos_fetcher ?ps ?p 0 3 = (?run, 3)"
    by (simp add: numeral_3_eq_3 createPaginatedIterator_def no_options_def or_default_def
        DEFAULT_PAGE_SIZE_def MAX_PAGE_SIZE_def thirty_in_twos_fetcher_def)
  have hyp: "fetch_run thirty_in_twos_fetcher ?ps ?p 0 3 = (?run, 3)
        \<and> 0 < (3::nat)
        \<and> (\<forall>(q, r) \<in> set (butlast ?run).
              data r \<noteq> [] \<and> (\<exists>mt nx. meta r = Some mt \<and> nextPage mt = Some nx))
        \<and> int (length (all_items (butlast ?run))) < 5
        \<and> (5 \<le> int (length (all_items ?run)) \<or> data (snd (last ?run)) = []
           \<or> meta (snd (last ?run)) = None
           \<or> (\<exists>mt. meta (snd (last ?run)) = Some mt \<and> nextPage mt = None))"
    using run by (simp add: all_items_def)
  note t1 = take_is_capped_drain
      [where f = thirty_in_twos_fetcher and options = no_options and w = 0 and k = 3
         and run = ?run and wk = 3 and n = 5,
       THEN conjunct2, THEN conjunct2, THEN conjunct1, rule_format, OF hyp]
  have a: "\<exists>it'. take' thirty_in_twos_fetcher 5 no_options 0 = Some ([1, 2, 3, 4, 5], it', 3)
        \<and> map (number \<circ> fst) (it_fetched it') = [1, 2, 3]"
    using t1 by (auto simp: all_items_def)
  let ?ps2 = "it_pageSize (createPaginatedIterator two_page_fetcher no_options)"
  let ?p2 = "it_currentPage (createPaginatedIterator two_page_fetcher no_options)"
  let ?run2 = "[(\<lparr>number = 1, size' = 50\<rparr>,
        \<lparr>data = [1, 2::nat],
         meta = Some \<lparr>currentPage = 1, nextPage = Some 2, prevPage = None,
                      totalPages = 2, totalCount = 4\<rparr>\<rparr>),
      (\<lparr>number = 2, size' = 50\<rparr>,
        \<lparr>data = [3, 4],
         meta = Some \<lparr>currentPage = 2, nextPage = None, prevPage = Some 1,
                      totalPages = 2, totalCount = 4\<rparr>\<rparr>)]"
  have run2: "fetch_run two_page_fetcher ?ps2 ?p2 () 2 = (?run2, ())"
    by (simp add: numeral_2_eq_2 createPaginatedIterator_def no_options_def or_default_def
        DEFAULT_PAGE_SIZE_def MAX_PAGE_SIZE_def two_page_fetcher_def)
  have hyp2: "fetch_run two_page_fetcher ?ps2 ?p2 () 2 = (?run2, ())
        \<and> 0 < (2::nat)
        \<and> (\<forall>(q, r) \<in> set (butlast ?run2).
              data r \<noteq> [] \<and> (\<exists>mt nx. meta r = Some mt \<and> nextPage mt = Some nx))
        \<and> int (length (all_items (butlast ?run2))) < 10
        \<and> (10 \<le> int (length (all_items ?run2)) \<or> data (snd (last ?run2)) = []
           \<or> meta (snd (last ?run2)) = None
           \<or> (\<exists>mt. meta (snd (last ?run2)) = Some mt \<and> nextPage mt = None))"
    using run2 by (simp add: all_items_def)
  note t2 = take_is_capped_drain
      [where f = two_page_fetcher and options = no_options and w = "()" and k = 2
         and run = ?run2 and wk = "()" and n = 10,
       THEN conjunct2, THEN conjunct2, THEN conjunct1, rule_format, OF hyp2]
  have b: "\<exists>it'. take' two_page_fetcher 10 no_options () = Some ([1, 2, 3, 4], it', ())
        \<and> map (number \<circ> fst) (it_fetched it') = [1, 2]"
    using t2 by (auto simp: all_items_def)
  have c: "\<exists>it'. take' thirty_in_twos_fetcher 0 no_options 0 = Some ([], it', 0)
        \<and> it_fetched it' = []"
    using take_is_capped_drain
      [where f = thirty_in_twos_fetcher and options = no_options and w = 0 and n = 0,
       THEN conjunct2, THEN conjunct2, THEN conjunct2, THEN conjunct1]
    by simp
  from a b c show ?thesis by blast
qed

subsection \<open>Iterating an iterable a second time\<close>

lemma next_done_fixed:
  assumes nx: "iterator_next it w = (None, it', w')" and st: "capped it' \<or> \<not> it_hasMore it'"
  shows "iterator_next it' v = (None, it', v)"
proof (cases it w rule: next_cases)
  case capped
  with nx show ?thesis by (simp add: next_capped)
next
  case yield
  with nx show ?thesis by simp
next
  case finished
  with nx show ?thesis by (simp add: next_finished)
next
  case (fetch_empty it1 w1)
  have "it_currentIndex it1 = 0" using fetch_page_fields [OF fetch_empty(4)] by simp
  with fetch_empty(5) have ex: "exhausted it1" by (simp add: exhausted_def)
  from fetch_empty(6) nx have eq: "it' = it1" by simp
  show ?thesis
  proof (cases "capped it1")
    case True
    with eq show ?thesis by (simp add: next_capped)
  next
    case False
    with st eq ex show ?thesis by (simp add: next_finished)
  qed
next
  case (fetch_yield it1 w1)
  with nx show ?thesis by simp
qed

lemma toArray_loop_ends:
  assumes run: "toArray_loop it w acc = Some (xs, it', w')"
  shows "\<exists>it0 w0. iterator_next it0 w0 = (None, it', w')"
proof -
  have "case (xs, it', w') of (ys, it2, w2) \<Rightarrow> \<exists>it0 w0. iterator_next it0 w0 = (None, it2, w2)"
  proof (rule toArray_loop.raw_induct
      [where P = "\<lambda>it w acc res.
          case res of (ys, it2, w2) \<Rightarrow> \<exists>it0 w0. iterator_next it0 w0 = (None, it2, w2)",
        OF _ run])
    fix loop :: "('a, 'b) iterator \<Rightarrow> 'b \<Rightarrow> 'a list \<Rightarrow> ('a list \<times> ('a, 'b) iterator \<times> 'b) option"
    fix i :: "('a, 'b) iterator" and v :: 'b and ac :: "'a list"
      and res :: "'a list \<times> ('a, 'b) iterator \<times> 'b"
    assume IH: "\<And>i v ac res. loop i v ac = Some res \<Longrightarrow>
          case res of (ys, it2, w2) \<Rightarrow> \<exists>it0 w0. iterator_next it0 w0 = (None, it2, w2)"
    assume step: "(case iterator_next i v of
                     (None, it', w') \<Rightarrow> Some (ac, it', w')
                   | (Some item, it', w') \<Rightarrow> loop it' w' (ac @ [item])) = Some res"
    obtain r it1 w1 where nx: "iterator_next i v = (r, it1, w1)"
      by (cases "iterator_next i v")
    show "case res of (ys, it2, w2) \<Rightarrow> \<exists>it0 w0. iterator_next it0 w0 = (None, it2, w2)"
    proof (cases r)
      case None
      with nx step show ?thesis by auto
    next
      case (Some x)
      with nx step have "loop it1 w1 (ac @ [x]) = Some res" by simp
      from IH [OF this] show ?thesis .
    qed
  qed
  then show ?thesis by simp
qed

text \<open>
  A drained iterable stays drained when the drain stopped at the item cap or after a
  page that announced no further page: iterating again yields nothing and fetches
  nothing.
\<close>

lemma redrain_empty:
  assumes run: "toArray it w = Some (xs, it', w')" and st: "capped it' \<or> \<not> it_hasMore it'"
  shows "toArray it' v = Some ([], it', v)"
proof -
  from run have "toArray_loop it w [] = Some (xs, it', w')"
    by (simp add: toArray_def)
  from toArray_loop_ends [OF this]
  obtain it0 w0 where "iterator_next it0 w0 = (None, it', w')"
    by (elim exE)
  from next_done_fixed [OF this st] have "iterator_next it' v = (None, it', v)" .
  then show ?thesis
    unfolding toArray_def by (subst toArray_loop.simps) simp
qed

text \<open>
  Claim C10 (the code departs from it). The iterable hands out one shared iterator, so a
  second iteration continues from the cursor the first one left. After a drain that
  ended on an empty page whose \<open>meta.nextPage\<close> was set, \<^verbatim>\<open>hasMore\<close> is still true:
  iterating the drained iterable again fetches the next page and yields its items.
  Here the first drain returns no item after one fetch, and the second drain of the same
  iterable returns the item 7 after a second fetch.
\<close>

theorem drained_iterable_resumes:
  "\<exists>it1 it2.
      toArray (createPaginatedIterator empty_first_page_fetcher no_options) () = Some ([], it1, ())
      \<and> length (it_fetched it1) = 1 \<and> it_hasMore it1
      \<and> toArray it1 () = Some ([7], it2, ())
      \<and> length (it_fetched it2) = 2"
  by (simp add: toArray_def toArray_loop.simps iterator_next_def capped_def
      fetch_loop_once fetch_page_def exhausted_def createPaginatedIterator_def no_options_def
      empty_first_page_fetcher_def or_default_def DEFAULT_PAGE_SIZE_def MAX_PAGE_SIZE_def
      more_pages_def)

section \<open>Properties of the error classification\<close>

lemmas error_ctor_defs = new_ITGlueError_def new_ITGlueAuthenticationError_def
  new_ITGlueNotFoundError_def new_ITGlueValidationError_def new_ITGlueRateLimitError_def
  new_ITGlueServerError_def with_class_def default_param_def

lemma js_or_printable:
  "returns (js_String (js_or msg (JStr d))) \<longleftrightarrow> (truthy msg \<longrightarrow> returns (js_String msg))"
  by (simp add: js_or_def)

lemma js_or_not_undefined: "js_or msg (JStr d) \<noteq> JUndefined"
  by (cases msg) (simp_all add: js_or_def)

text \<open>
  The constructor call of every branch: it throws when the message cannot be printed
  and otherwise builds the error with the printed message.
\<close>

lemma new_ITGlueError_cases:
  "new_ITGlueError (js_or msg (JStr d)) status resp u m =
     (case js_String (js_or msg (JStr d)) of
        Inl e \<Rightarrow> Inl e
      | Inr s \<Rightarrow> Inr \<lparr> error_class = ITGlueError, message = s, statusCode = status,
                      response = resp, url = u, method' = m \<rparr>)"
  by (simp add: new_ITGlueError_def js_or_not_undefined)

lemma createErrorFromResponse_returns:
  "returns (createErrorFromResponse status resp u m) \<longleftrightarrow>
     (truthy (response_message resp) \<longrightarrow> returns (js_String (response_message resp)))"
proof -
  have "returns (with_class c (new_ITGlueError (js_or (response_message resp) (JStr d)) st resp u m))
        \<longleftrightarrow> (truthy (response_message resp) \<longrightarrow> returns (js_String (response_message resp)))"
    for c d st
    using js_or_printable [of "response_message resp" d]
    by (cases "js_String (js_or (response_message resp) (JStr d))")
      (simp_all add: new_ITGlueError_cases with_class_def)
  moreover have "returns (new_ITGlueError (js_or (response_message resp) (JStr d)) st resp u m)
        \<longleftrightarrow> (truthy (response_message resp) \<longrightarrow> returns (js_String (response_message resp)))"
    for d st
    using js_or_printable [of "response_message resp" d]
    by (cases "js_String (js_or (response_message resp) (JStr d))")
      (simp_all add: new_ITGlueError_cases)
  ultimately show ?thesis
    by (simp add: createErrorFromResponse_def Let_def new_ITGlueAuthenticationError_def
        new_ITGlueNotFoundError_def new_ITGlueValidationError_def new_ITGlueRateLimitError_def
        new_ITGlueServerError_def default_param_def js_or_not_undefined)
qed

lemma createErrorFromResponse_class:
  assumes "createErrorFromResponse status resp u m = Inr e"
  shows "error_class e =
     (if status = 401 \<or> status = 403 then ITGlueAuthenticationError
      else if status = 404 then ITGlueNotFoundError
      else if status = 422 then ITGlueValidationError (js_or (opt_prop resp ''errors'') (JArr []))
      else if status = 429 then ITGlueRateLimitError None
      else if 500 \<le> status then ITGlueServerError
      else ITGlueError)"
    and "js_String (js_or (response_message resp)
           (JStr (if status = 401 \<or> status = 403 then ''Authentication failed. Check your API key.''
                  else if status = 404 then ''Resource not found.''
                  else if status = 422 then ''Validation failed.''
                  else if status = 429 then ''Rate limit exceeded.''
                  else if 500 \<le> status then ''Server error occurred.''
                  else ''HTTP error '' @ show_int status))) = Inr (message e)"
    and "response e = resp" and "url e = u" and "method' e = m"
  using assms
  by (auto simp: createErrorFromResponse_def Let_def new_ITGlueAuthenticationError_def
      new_ITGlueNotFoundError_def new_ITGlueValidationError_def new_ITGlueRateLimitError_def
      new_ITGlueServerError_def default_param_def js_or_not_undefined new_ITGlueError_cases
      with_class_def split: if_splits sum.splits)

lemma createErrorFromResponse_404_example:
  "createErrorFromResponse 404 (JObj [(''errors'', JArr [JObj [(''detail'', JStr ''x'')]])]) u m =
     Inr \<lparr> error_class = ITGlueNotFoundError, message = ''x'', statusCode = 404,
           response = JObj [(''errors'', JArr [JObj [(''detail'', JStr ''x'')]])],
           url = u, method' = m \<rparr>"
  by (simp add: createErrorFromResponse_def response_message_def Let_def error_ctor_defs
      opt_prop_def nullish_def obj_get_def js_or_def)

lemma response_message_printable:
  "\<not> isArray (response_message resp) \<Longrightarrow> \<not> isPlainObject (response_message resp) \<Longrightarrow>
   returns (js_String (response_message resp))"
  by (cases "response_message resp") simp_all

text \<open>
  Claim C3, as the code has it. For every status code and response body,
  \<open>createErrorFromResponse\<close> either builds an error or throws a \<open>TypeError\<close> from the
  \<open>Error\<close> constructor; it throws exactly when the message picked from the body
  (\<open>errors[0].detail\<close>, else \<open>errors[0].title\<close>, else \<open>message\<close>) is truthy and cannot be
  converted to a string, which needs an object with a property \<open>toString\<close> (or an array
  holding one) in that place. Whenever it builds an error, the class follows the fixed
  table: 401 and 403 give the authentication class, 404 not-found, 422 validation
  carrying the \<open>errors\<close> array of the body (the empty array when the body has none), 429
  rate-limit, every status from 500 on server, and any other status the generic class.
  In particular status 404 with body \<open>{errors: [{detail: "x"}]}\<close> gives a not-found error
  whose message is \<open>x\<close>.
\<close>

theorem createErrorFromResponse_table:
  "(returns (createErrorFromResponse status resp u m) \<longleftrightarrow>
      (truthy (response_message resp) \<longrightarrow> returns (js_String (response_message resp))))
   \<and> (\<not> isArray (response_message resp) \<and> \<not> isPlainObject (response_message resp) \<longrightarrow>
        returns (createErrorFromResponse status resp u m))
   \<and> (createErrorFromResponse status resp u m = Inr e \<longrightarrow>
        (status = 401 \<or> status = 403 \<longrightarrow> error_class e = ITGlueAuthenticationError)
        \<and> (status = 404 \<longrightarrow> error_class e = ITGlueNotFoundError)
        \<and> (status = 422 \<longrightarrow>
             error_class e = ITGlueValidationError (js_or (opt_prop resp ''errors'') (JArr [])))
        \<and> (status = 422 \<and> prop_of resp ''errors'' = JArr es \<longrightarrow>
             error_class e = ITGlueValidationError (JArr es))
        \<and> (status = 429 \<longrightarrow> error_class e = ITGlueRateLimitError None)
        \<and> (500 \<le> status \<longrightarrow> error_class e = ITGlueServerError)
        \<and> (status \<notin> {401, 403, 404, 422, 429} \<and> status < 500 \<longrightarrow> error_class e = ITGlueError))
   \<and> createErrorFromResponse 404
        (JObj [(''errors'', JArr [JObj [(''detail'', JStr ''x'')]])]) u m =
       Inr \<lparr> error_class = ITGlueNotFoundError, message = ''x'', statusCode = 404,
             response = JObj [(''errors'', JArr [JObj [(''detail'', JStr ''x'')]])],
             url = u, method' = m \<rparr>"
proof -
  have a: "prop_of resp ''errors'' = JArr es \<Longrightarrow> js_or (opt_prop resp ''errors'') (JArr []) = JArr es"
    by (cases resp) (simp_all add: opt_prop_def nullish_def js_or_def)
  have b: "returns (createErrorFromResponse status resp u m)"
    if "\<not> isArray (response_message resp)" "\<not> isPlainObject (response_message resp)"
    using that response_message_printable by (simp add: createErrorFromResponse_returns)
  have c: "error_class e =
     (if status = 401 \<or> status = 403 then ITGlueAuthenticationError
      else if status = 404 then ITGlueNotFoundError
      else if status = 422 then ITGlueValidationError (js_or (opt_prop resp ''errors'') (JArr []))
      else if status = 429 then ITGlueRateLimitError None
      else if 500 \<le> status then ITGlueServerError
      else ITGlueError)"
    if "createErrorFromResponse status resp u m = Inr e"
    using that by (rule createErrorFromResponse_class(1))
  have d: "(status = 401 \<or> status = 403 \<longrightarrow> error_class e = ITGlueAuthenticationError)
        \<and> (status = 404 \<longrightarrow> error_class e = ITGlueNotFoundError)
        \<and> (status = 422 \<longrightarrow>
             error_class e = ITGlueValidationError (js_or (opt_prop resp ''errors'') (JArr [])))
        \<and> (status = 422 \<and> prop_of resp ''errors'' = JArr es \<longrightarrow>
             error_class e = ITGlueValidationError (JArr es))
        \<and> (status = 429 \<longrightarrow> error_class e = ITGlueRateLimitError None)
        \<and> (500 \<le> status \<longrightarrow> error_class e = ITGlueServerError)
        \<and> (status \<notin> {401, 403, 404, 422, 429} \<and> status < 500 \<longrightarrow> error_class e = ITGlueError)"
    if "createErrorFromResponse status resp u m = Inr e"
    using c [OF that] a by auto
  from b d show ?thesis
    by (simp only: createErrorFromResponse_returns createErrorFromResponse_404_example) blast
qed

theorem createErrorFromResponse_table_witness:
  "(\<exists>e. createErrorFromResponse 403 JNull None None = Inr e
        \<and> error_class e = ITGlueAuthenticationError)
   \<and> (\<exists>e. createErrorFromResponse 422 (JObj [(''errors'', JArr [JStr ''e''])]) None None = Inr e
        \<and> error_class e = ITGlueValidationError (JArr [JStr ''e'']))
   \<and> (\<exists>e. createErrorFromResponse 503 JNull None None = Inr e
        \<and> error_class e = ITGlueServerError)
   \<and> (\<exists>e. createErrorFromResponse 400 JNull None None = Inr e
        \<and> error_class e = ITGlueError)"
proof -
  have r: "returns x \<Longrightarrow> \<exists>e. x = Inr e" for x :: "js_exn + itglue_error"
    by (cases x) simp_all
  have p1: "\<not> isArray (response_message JNull)" "\<not> isPlainObject (response_message JNull)"
    by (simp_all add: response_message_def opt_prop_def nullish_def js_or_def)
  let ?body = "JObj [(''errors'', JArr [JStr ''e''])]"
  have p2: "\<not> isArray (response_message ?body)" "\<not> isPlainObject (response_message ?body)"
    by (simp_all add: response_message_def opt_prop_def nullish_def js_or_def obj_get_def)
  have e: "prop_of ?body ''errors'' = JArr [JStr ''e'']"
    by (simp add: obj_get_def)
  have "returns (createErrorFromResponse 403 JNull None None)"
    using createErrorFromResponse_table [of 403 JNull None None undefined "[]", THEN conjunct2, THEN conjunct1] p1
    by simp
  then obtain e1 where e1: "createErrorFromResponse 403 JNull None None = Inr e1"
    using r by blast
  have c1: "error_class e1 = ITGlueAuthenticationError"
    using createErrorFromResponse_table [of 403 JNull None None e1 "[]"] e1 by simp
  have "returns (createErrorFromResponse 422 ?body None None)"
    using createErrorFromResponse_table [of 422 ?body None None undefined "[]", THEN conjunct2, THEN conjunct1] p2
    by simp
  then obtain e2 where e2: "createErrorFromResponse 422 ?body None None = Inr e2"
    using r by blast
  have c2: "error_class e2 = ITGlueValidationError (JArr [JStr ''e''])"
    using createErrorFromResponse_table [of 422 ?body None None e2 "[JStr ''e'']",
        THEN conjunct2, THEN conjunct2, THEN conjunct1, rule_format, OF e2,
        THEN conjunct2, THEN conjunct2, THEN conjunct2, THEN conjunct1] e
    by simp
  have "returns (createErrorFromResponse 503 JNull None None)"
    using createErrorFromResponse_table [of 503 JNull None None undefined "[]", THEN conjunct2, THEN conjunct1] p1
    by simp
  then obtain e3 where e3: "createErrorFromResponse 503 JNull None None = Inr e3"
    using r by blast
  have c3: "error_class e3 = ITGlueServerError"
    using createErrorFromResponse_table [of 503 JNull None None e3 "[]"] e3 by simp
  have "returns (createErrorFromResponse 400 JNull None None)"
    using createErrorFromResponse_table [of 400 JNull None None undefined "[]", THEN conjunct2, THEN conjunct1] p1
    by simp
  then obtain e4 where e4: "createErrorFromResponse 400 JNull None None = Inr e4"
    using r by blast
  have c4: "error_class e4 = ITGlueError"
    using createErrorFromResponse_table [of 400 JNull None None e4 "[]"] e4 by simp
  from e1 c1 e2 c2 e3 c3 e4 c4 show ?thesis by simp
qed

text \<open>
  The claim as stated fails on a body whose picked message cannot be converted to a
  string: with status 404 no not-found error is built, the constructor throws.
\<close>

theorem createErrorFromResponse_unprintable_message:
  "createErrorFromResponse 404 unprintable_detail_body None None = Inl TypeError"
  by (simp add: createErrorFromResponse_def response_message_def Let_def error_ctor_defs
      unprintable_detail_body_def opt_prop_def nullish_def obj_get_def js_or_def has_key_def)

section \<open>Properties of the retry policy\<close>

lemma request_shouldRetry_class:
  "request_shouldRetry err =
     (\<exists>e. err = ITGlue e
        \<and> ((\<exists>retryAfter. error_class e = ITGlueRateLimitError retryAfter)
           \<or> error_class e = ITGlueServerError))"
  by (cases err) (auto simp: request_shouldRetry_def split: error_class.splits)

lemma world_before_Suc:
  "world_before attempt w (Suc i) = snd (attempt (world_before attempt w i))"
  by (induction i arbitrary: w) simp_all

text \<open>
  A run of the engine that starts with \<open>n\<close> attempts behind it ends at the first attempt
  that succeeds, fails with an error the predicate refuses, or uses up the retries; every
  attempt before that one failed with an error the predicate accepts.
\<close>

lemma retryWithBackoff_from_trace:
  assumes "retryWithBackoff_from attempt cfg n w = (res, k, w')" and "n \<le> maxRetries cfg"
  shows "\<exists>i. k = Suc (n + i) \<and> n + i \<le> maxRetries cfg
           \<and> attempt (world_before attempt w i) = (res, w')
           \<and> (\<forall>j<i. \<exists>e. fst (attempt (world_before attempt w j)) = Inl e \<and> shouldRetry cfg e)
           \<and> (n + i = maxRetries cfg
               \<or> (case res of Inr v \<Rightarrow> True | Inl e \<Rightarrow> \<not> shouldRetry cfg e))"
  using assms
proof (induction attempt cfg n w arbitrary: res k w' rule: retryWithBackoff_from.induct)
  case (1 attempt cfg n w)
  obtain r w1 where a: "attempt w = (r, w1)"
    by (cases "attempt w")
  show ?case
  proof (cases r)
    case (Inr v)
    have "retryWithBackoff_from attempt cfg n w = (Inr v, Suc n, w1)"
      using a Inr by (subst retryWithBackoff_from.simps) simp
    with "1.prems" have "res = Inr v" "k = Suc n" "w' = w1"
      by simp_all
    with a Inr "1.prems"(2) show ?thesis
      by (intro exI [of _ 0]) simp
  next
    case (Inl e)
    show ?thesis
    proof (cases "\<not> shouldRetry cfg e \<or> Suc n > maxRetries cfg")
      case True
      have "retryWithBackoff_from attempt cfg n w = (Inl e, Suc n, w1)"
        using a Inl True by (subst retryWithBackoff_from.simps) auto
      with "1.prems" have "res = Inl e" "k = Suc n" "w' = w1"
        by simp_all
      with a Inl True "1.prems"(2) show ?thesis
        by (intro exI [of _ 0]) auto
    next
      case False
      have "retryWithBackoff_from attempt cfg n w = retryWithBackoff_from attempt cfg (Suc n) w1"
        using a Inl False by (subst retryWithBackoff_from.simps) auto
      with "1.prems" have run: "retryWithBackoff_from attempt cfg (Suc n) w1 = (res, k, w')"
        by simp
      from False have le: "Suc n \<le> maxRetries cfg"
        by simp
      from "1.IH" [OF a [symmetric] Inl False run le]
      obtain i where i: "k = Suc (Suc n + i)" "Suc n + i \<le> maxRetries cfg"
          "attempt (world_before attempt w1 i) = (res, w')"
          "\<forall>j<i. \<exists>e. fst (attempt (world_before attempt w1 j)) = Inl e \<and> shouldRetry cfg e"
          "Suc n + i = maxRetries cfg
             \<or> (case res of Inr v \<Rightarrow> True | Inl e \<Rightarrow> \<not> shouldRetry cfg e)"
        by blast
      have w1: "world_before attempt w (Suc j) = world_before attempt w1 j" for j
        using a by simp
      have "\<exists>e. fst (attempt (world_before attempt w j)) = Inl e \<and> shouldRetry cfg e"
        if "j < Suc i" for j
      proof (cases j)
        case 0
        with a Inl False show ?thesis
          by simp
      next
        case (Suc j')
        with that i(4) w1 show ?thesis
          by simp
      qed
      with i w1 show ?thesis
        by (intro exI [of _ "Suc i"]) simp
    qed
  qed
qed

lemma requestWithRetry_trace:
  assumes "requestWithRetry request config_maxRetries config_retryAfterMs w = (res, k, w')"
  shows "\<exists>i. k = Suc i \<and> i \<le> config_maxRetries
           \<and> request (world_before request w i) = (res, w')
           \<and> (\<forall>j<i. \<exists>e. fst (request (world_before request w j)) = Inl e
                 \<and> request_shouldRetry e)
           \<and> (i = config_maxRetries
               \<or> (case res of Inr v \<Rightarrow> True | Inl e \<Rightarrow> \<not> request_shouldRetry e))"
  using retryWithBackoff_from_trace
    [of request "\<lparr> maxRetries = config_maxRetries, baseDelayMs = config_retryAfterMs,
         maxDelayMs = 60000, shouldRetry = request_shouldRetry \<rparr>" 0 w res k w']
    assms
  by (simp add: requestWithRetry_def retryWithBackoff_def cong: sum.case_cong)

text \<open>
  The outcome of a run is fixed by the attempts: when the attempts before attempt \<open>i\<close>
  all failed with an error the predicate accepts and attempt \<open>i\<close> is one at which the
  engine stops, the run makes exactly \<open>i + 1\<close> attempts and ends with what attempt \<open>i\<close>
  gave.
\<close>

lemma requestWithRetry_stops_at:
  assumes before: "\<forall>j<i. \<exists>e. fst (request (world_before request w j)) = Inl e
                     \<and> request_shouldRetry e"
    and i: "i \<le> config_maxRetries"
    and att: "request (world_before request w i) = (r, w1)"
    and stop: "i = config_maxRetries
               \<or> (case r of Inr v \<Rightarrow> True | Inl e \<Rightarrow> \<not> request_shouldRetry e)"
  shows "requestWithRetry request config_maxRetries config_retryAfterMs w = (r, Suc i, w1)"
proof -
  obtain res k w' where
    run: "requestWithRetry request config_maxRetries config_retryAfterMs w = (res, k, w')"
    by (cases "requestWithRetry request config_maxRetries config_retryAfterMs w")
  from requestWithRetry_trace [OF run]
  obtain i' where i': "k = Suc i'" "i' \<le> config_maxRetries"
      "request (world_before request w i') = (res, w')"
      "\<forall>j<i'. \<exists>e. fst (request (world_before request w j)) = Inl e \<and> request_shouldRetry e"
      "i' = config_maxRetries
         \<or> (case res of Inr v \<Rightarrow> True | Inl e \<Rightarrow> \<not> request_shouldRetry e)"
    by blast
  have "i' = i"
  proof (rule ccontr)
    assume "i' \<noteq> i"
    then consider "i' < i" | "i < i'"
      by linarith
    then show False
    proof cases
      case 1
      with before obtain e where "fst (request (world_before request w i')) = Inl e"
          "request_shouldRetry e"
        by blast
      with i'(3,5) 1 i show False
        by auto
    next
      case 2
      with i'(4) obtain e where "fst (request (world_before request w i)) = Inl e"
          "request_shouldRetry e"
        by blast
      with att stop 2 i'(2) show False
        by auto
    qed
  qed
  with i' att run show ?thesis
    by simp
qed

text \<open>
  A validation failure is not retried, and a request that is rate-limited once is sent
  a second time.
\<close>

lemma requestWithRetry_examples:
  "requestWithRetry failing_validation_request 3 5000 0 = (Inl (ITGlue validation_failure), 1, 1)"
  "requestWithRetry limited_once_request 3 5000 0 = (Inr (JStr ''success''), 2, 2)"
proof -
  show "requestWithRetry failing_validation_request 3 5000 0
      = (Inl (ITGlue validation_failure), 1, 1)"
    using requestWithRetry_stops_at
      [of 0 failing_validation_request 0 3 "Inl (ITGlue validation_failure)" 1 5000]
    by (simp add: failing_validation_request_def request_shouldRetry_def
        validation_failure_def)
  show "requestWithRetry limited_once_request 3 5000 0 = (Inr (JStr ''success''), 2, 2)"
    using requestWithRetry_stops_at
      [of 1 limited_once_request 0 3 "Inr (JStr ''success'')" 2 5000]
    by (simp add: limited_once_request_def request_shouldRetry_def rate_limit_failure_def)
qed

text \<open>
  Claim C7. The predicate that \<open>requestWithRetry\<close> wires as \<open>shouldRetry\<close> is true of an
  error if and only if the error is a rate-limit error or a server error. It is this
  predicate that decides a run of \<open>requestWithRetry\<close>: the run makes at most
  \<open>maxRetries + 1\<close> requests, each in the world the one before left; every request but
  the last failed with a rate-limit or server error; and the last one either used up the
  retries, or succeeded, or failed with an error that is neither. So a validation,
  not-found, authentication, network or timeout error is never followed by a retry: at
  whatever attempt it first occurs, the run ends there with that error, having made no
  further request.
\<close>

theorem requestWithRetry_policy:
  "(request_shouldRetry err \<longleftrightarrow>
      (\<exists>e. err = ITGlue e
         \<and> ((\<exists>retryAfter. error_class e = ITGlueRateLimitError retryAfter)
            \<or> error_class e = ITGlueServerError)))
   \<and> (requestWithRetry request config_maxRetries config_retryAfterMs w = (res, k, w') \<longrightarrow>
        (\<exists>i. k = Suc i \<and> i \<le> config_maxRetries
           \<and> request (world_before request w i) = (res, w')
           \<and> (\<forall>j<i. \<exists>e. fst (request (world_before request w j)) = Inl (ITGlue e)
                 \<and> ((\<exists>retryAfter. error_class e = ITGlueRateLimitError retryAfter)
                    \<or> error_class e = ITGlueServerError))
           \<and> (i = config_maxRetries
               \<or> (case res of Inr v \<Rightarrow> True
                   | Inl (ITGlue e) \<Rightarrow>
                       (\<forall>retryAfter. error_class e \<noteq> ITGlueRateLimitError retryAfter)
                       \<and> error_class e \<noteq> ITGlueServerError
                   | Inl (OtherError s) \<Rightarrow> True))))
   \<and> ((\<forall>j<n. \<exists>e. fst (request (world_before request w j)) = Inl (ITGlue e)
            \<and> ((\<exists>retryAfter. error_class e = ITGlueRateLimitError retryAfter)
               \<or> error_class e = ITGlueServerError))
        \<and> n \<le> config_maxRetries
        \<and> request (world_before request w n) = (Inl (ITGlue failure), w1)
        \<and> (error_class failure = ITGlueValidationError errs
           \<or> error_class failure = ITGlueNotFoundError
           \<or> error_class failure = ITGlueAuthenticationError
           \<or> error_class failure = ITGlueNetworkError
           \<or> error_class failure = ITGlueTimeoutError t)
        \<longrightarrow> requestWithRetry request config_maxRetries config_retryAfterMs w
              = (Inl (ITGlue failure), Suc n, w1))"
proof (intro conjI impI)
  show "request_shouldRetry err \<longleftrightarrow>
      (\<exists>e. err = ITGlue e
         \<and> ((\<exists>retryAfter. error_class e = ITGlueRateLimitError retryAfter)
            \<or> error_class e = ITGlueServerError))"
    by (rule request_shouldRetry_class)
next
  assume "requestWithRetry request config_maxRetries config_retryAfterMs w = (res, k, w')"
  from requestWithRetry_trace [OF this]
  obtain i where i: "k = Suc i" "i \<le> config_maxRetries"
      "request (world_before request w i) = (res, w')"
      "\<forall>j<i. \<exists>e. fst (request (world_before request w j)) = Inl e \<and> request_shouldRetry e"
      "i = config_maxRetries
         \<or> (case res of Inr v \<Rightarrow> True | Inl e \<Rightarrow> \<not> request_shouldRetry e)"
    by blast
  from i(4) have before:
    "\<forall>j<i. \<exists>e. fst (request (world_before request w j)) = Inl (ITGlue e)
         \<and> ((\<exists>retryAfter. error_class e = ITGlueRateLimitError retryAfter)
            \<or> error_class e = ITGlueServerError)"
    unfolding request_shouldRetry_class by blast
  from i(5) have last:
    "i = config_maxRetries
       \<or> (case res of Inr v \<Rightarrow> True
           | Inl (ITGlue e) \<Rightarrow>
               (\<forall>retryAfter. error_class e \<noteq> ITGlueRateLimitError retryAfter)
               \<and> error_class e \<noteq> ITGlueServerError
           | Inl (OtherError s) \<Rightarrow> True)"
    unfolding request_shouldRetry_class by (auto split: sum.splits js_error.splits)
  from i(1,2,3) before last
  show "\<exists>i. k = Suc i \<and> i \<le> config_maxRetries
           \<and> request (world_before request w i) = (res, w')
           \<and> (\<forall>j<i. \<exists>e. fst (request (world_before request w j)) = Inl (ITGlue e)
                 \<and> ((\<exists>retryAfter. error_class e = ITGlueRateLimitError retryAfter)
                    \<or> error_class e = ITGlueServerError))
           \<and> (i = config_maxRetries
               \<or> (case res of Inr v \<Rightarrow> True
                   | Inl (ITGlue e) \<Rightarrow>
                       (\<forall>retryAfter. error_class e \<noteq> ITGlueRateLimitError retryAfter)
                       \<and> error_class e \<noteq> ITGlueServerError
                   | Inl (OtherError s) \<Rightarrow> True))"
    by blast
next
  assume h: "(\<forall>j<n. \<exists>e. fst (request (world_before request w j)) = Inl (ITGlue e)
            \<and> ((\<exists>retryAfter. error_class e = ITGlueRateLimitError retryAfter)
               \<or> error_class e = ITGlueServerError))
        \<and> n \<le> config_maxRetries
        \<and> request (world_before request w n) = (Inl (ITGlue failure), w1)
        \<and> (error_class failure = ITGlueValidationError errs
           \<or> error_class failure = ITGlueNotFoundError
           \<or> error_class failure = ITGlueAuthenticationError
           \<or> error_class failure = ITGlueNetworkError
           \<or> error_class failure = ITGlueTimeoutError t)"
  then have before: "\<forall>j<n. \<exists>e. fst (request (world_before request w j)) = Inl e
      \<and> request_shouldRetry e"
    unfolding request_shouldRetry_class by blast
  from h have "\<not> request_shouldRetry (ITGlue failure)"
    unfolding request_shouldRetry_class by auto
  then have stop: "n = config_maxRetries
      \<or> (case Inl (ITGlue failure) :: js_error + 'a of Inr v \<Rightarrow> True
          | Inl e \<Rightarrow> \<not> request_shouldRetry e)"
    by simp
  from h have "n \<le> config_maxRetries"
      "request (world_before request w n) = (Inl (ITGlue failure), w1)"
    by simp_all
  from requestWithRetry_stops_at [OF before this stop]
  show "requestWithRetry request config_maxRetries config_retryAfterMs w
      = (Inl (ITGlue failure), Suc n, w1)" .
qed

text \<open>
  With five retries allowed, a request that is rate-limited twice and then fails
  validation is sent three times and the validation error reaches the caller, although
  a fourth request would have succeeded.
\<close>

theorem requestWithRetry_policy_witness:
  "requestWithRetry limited_then_invalid_request 5 1000 0
     = (Inl (ITGlue validation_failure), 3, 3)
   \<and> request_shouldRetry (ITGlue rate_limit_failure :: js_error)
   \<and> \<not> request_shouldRetry (ITGlue validation_failure)"
proof -
  have before: "\<forall>j<2. \<exists>e. fst (limited_then_invalid_request
        (world_before limited_then_invalid_request 0 j)) = Inl (ITGlue e)
      \<and> ((\<exists>retryAfter. error_class e = ITGlueRateLimitError retryAfter)
         \<or> error_class e = ITGlueServerError)"
    by (simp add: less_Suc_eq numeral_2_eq_2 limited_then_invalid_request_def
        rate_limit_failure_def)
  have third: "limited_then_invalid_request (world_before limited_then_invalid_request 0 2)
      = (Inl (ITGlue validation_failure), 3)"
    by (simp add: numeral_2_eq_2 limited_then_invalid_request_def)
  have cls: "error_class validation_failure = ITGlueValidationError (JArr [])"
    by (simp add: validation_failure_def)
  have run: "requestWithRetry limited_then_invalid_request 5 1000 0
      = (Inl (ITGlue validation_failure), Suc 2, 3)"
    using requestWithRetry_policy
      [where request = limited_then_invalid_request and config_maxRetries = 5
         and config_retryAfterMs = 1000 and w = 0 and n = 2
         and failure = validation_failure and ?w1.0 = 3 and errs = "JArr []",
       THEN conjunct2, THEN conjunct2]
      before third cls
    by simp
  have yes: "request_shouldRetry (ITGlue rate_limit_failure)"
    using requestWithRetry_policy [where err = "ITGlue rate_limit_failure", THEN conjunct1]
    by (simp add: rate_limit_failure_def)
  have no: "\<not> request_shouldRetry (ITGlue validation_failure)"
    using requestWithRetry_policy [where err = "ITGlue validation_failure", THEN conjunct1]
    by (simp add: validation_failure_def)
  from run yes no show ?thesis
    by simp
qed

section \<open>Properties of the decoder\<close>

subsection \<open>Objects\<close>

lemma key_in: "(k, v) \<in> set r \<Longrightarrow> k \<in> fst ` set r"
  by (rule image_eqI [where x = "(k, v)"]) simp_all

lemma map_of_replace_prop:
  "map_of (replace_prop k v r) x = (if x = k \<and> k \<in> fst ` set r then Some v else map_of r x)"
  by (induction r) (auto dest: key_in)

lemma map_of_insert_index:
  "k \<notin> fst ` set r \<Longrightarrow>
     map_of (insert_index i k v r) x = (if x = k then Some v else map_of r x)"
  by (induction r) (auto split: option.splits)

lemma map_of_append_new:
  "k \<notin> fst ` set r \<Longrightarrow> map_of (r @ [(k, v)]) x = (if x = k then Some v else map_of r x)"
  by (auto simp: map_add_def map_of_eq_None_iff [symmetric] split: option.splits)

lemma map_of_obj_set:
  "map_of (obj_set r k v) x = (if x = k \<and> k \<noteq> ''__proto__'' then Some v else map_of r x)"
proof (cases "k = ''__proto__''")
  case True
  then show ?thesis by (simp add: obj_set_def)
next
  case False
  show ?thesis
  proof (cases "k \<in> fst ` set r")
    case True
    with False show ?thesis
      by (simp add: obj_set_def has_key_def map_of_replace_prop)
  next
    case nk: False
    with False show ?thesis
      by (cases "array_index k")
        (simp_all add: obj_set_def has_key_def map_of_insert_index map_of_append_new
          del: map_of_append)
  qed
qed

lemma obj_get_obj_set:
  "obj_get (obj_set r k v) k' = (if k' = k \<and> k \<noteq> ''__proto__'' then v else obj_get r k')"
  by (simp add: obj_get_def map_of_obj_set)

lemma keys_replace_prop: "map fst (replace_prop k v r) = map fst r"
  by (induction r) auto

lemma keys_insert_index: "fst ` set (insert_index i k v r) = insert k (fst ` set r)"
proof (induction r)
  case Nil
  then show ?case by simp
next
  case (Cons p r)
  obtain k' v' where p: "p = (k', v')" by (cases p)
  show ?case
  proof (cases "array_index k'")
    case None
    with p show ?thesis by simp
  next
    case (Some j)
    with p Cons.IH show ?thesis
      by (cases "j < i") (simp_all add: insert_commute)
  qed
qed

lemma distinct_insert_index:
  "k \<notin> fst ` set r \<Longrightarrow> distinct (map fst r) \<Longrightarrow> distinct (map fst (insert_index i k v r))"
proof (induction r)
  case Nil
  then show ?case by simp
next
  case (Cons p r)
  obtain k' v' where p: "p = (k', v')" by (cases p)
  from Cons.prems p have "k' \<notin> fst ` set (insert_index i k v r)"
    unfolding keys_insert_index by auto
  with Cons p show ?case
    by (auto split: option.splits)
qed

lemma distinct_obj_set: "distinct (map fst r) \<Longrightarrow> distinct (map fst (obj_set r k v))"
  by (simp add: obj_set_def has_key_def keys_replace_prop distinct_insert_index
      split: option.splits)

lemma obj_set_proto: "obj_set r ''__proto__'' v = r"
  by (simp add: obj_set_def)

lemma obj_get_present: "map_of r k = Some v \<Longrightarrow> obj_get r k = v \<and> k \<in> fst ` set r"
  by (auto simp: obj_get_def dest: map_of_SomeD intro: rev_image_eqI)

lemma get_prop_returns: "\<not> nullish v \<Longrightarrow> get_prop v k = Inr (prop_of v k)"
  by (simp add: get_prop_def)

lemma get_prop_throws: "nullish v \<Longrightarrow> get_prop v k = Inl TypeError"
  by (simp add: get_prop_def)

lemma truthy_not_nullish: "truthy v \<Longrightarrow> \<not> nullish v"
  by (cases v) (simp_all add: nullish_def)

lemma object_entries_truthy: "truthy v \<Longrightarrow> \<exists>es. object_entries v = Inr es"
  by (cases v) simp_all

subsection \<open>Wire keys convert to distinct internal keys\<close>

lemma uncamel_kebabToCamel: "wire_key s \<Longrightarrow> uncamel (kebabToCamel s) = s"
proof (induction s rule: kebabToCamel.induct)
  case (1 h c rest)
  then show ?case
    by (auto simp: wire_key_def upper_of_lower lower_upper_char)
qed (simp_all add: wire_key_def)

lemma kebabToCamel_inj:
  assumes "wire_key s" "wire_key t" "kebabToCamel s = kebabToCamel t"
  shows "s = t"
  using assms uncamel_kebabToCamel by metis

lemma distinct_internal_keys:
  assumes "distinct (map fst es)" and "\<forall>(k, v) \<in> set es. wire_key k"
  shows "distinct (map (\<lambda>(k, v). kebabToCamel k) es)"
proof -
  have "inj_on kebabToCamel (set (map fst es))"
    using assms(2) by (auto intro!: inj_onI kebabToCamel_inj)
  then have "distinct (map kebabToCamel (map fst es))"
    by (rule iffD2 [OF distinct_map, OF conjI [OF assms(1)]])
  then have d: "distinct (map (kebabToCamel \<circ> fst) es)"
    by simp
  have eq: "(\<lambda>(k, v). kebabToCamel k) = kebabToCamel \<circ> fst"
    by (simp add: fun_eq_iff)
  from d show ?thesis unfolding eq .
qed

subsection \<open>Relationships\<close>

lemma relationships_loop_keep:
  assumes "\<forall>(k, v) \<in> set es. \<not> nullish v" and "c \<notin> (\<lambda>(k, v). kebabToCamel k) ` set es"
  shows "\<exists>res. relationships_loop es acc = Inr res \<and> map_of res c = map_of acc c"
  using assms
proof (induction es arbitrary: acc)
  case Nil
  then show ?case by simp
next
  case (Cons p es)
  obtain k v where p: "p = (k, v)" by (cases p)
  from Cons.prems p have nv: "\<not> nullish v" and ne: "c \<noteq> kebabToCamel k" by auto
  from Cons.prems have "\<forall>(k, v) \<in> set es. \<not> nullish v"
    "c \<notin> (\<lambda>(k, v). kebabToCamel k) ` set es" by auto
  from Cons.IH [OF this, of "obj_set acc (kebabToCamel k) (relationship_links (prop_of v ''data''))"]
  show ?case using p nv ne by (simp add: get_prop_returns map_of_obj_set)
qed

lemma relationships_loop_lookup:
  assumes "\<forall>(k, v) \<in> set es. \<not> nullish v"
    and "distinct (map (\<lambda>(k, v). kebabToCamel k) es)"
    and "(k, v) \<in> set es"
    and "kebabToCamel k \<noteq> ''__proto__''"
  shows "\<exists>res. relationships_loop es acc = Inr res
           \<and> map_of res (kebabToCamel k) = Some (relationship_links (prop_of v ''data''))"
  using assms
proof (induction es arbitrary: acc)
  case Nil
  then show ?case by simp
next
  case (Cons p es)
  obtain k' v' where p: "p = (k', v')" by (cases p)
  from Cons.prems p have nv: "\<not> nullish v'" and ok: "\<forall>(k, v) \<in> set es. \<not> nullish v"
    and fresh: "kebabToCamel k' \<notin> (\<lambda>(k, v). kebabToCamel k) ` set es"
    and dist: "distinct (map (\<lambda>(k, v). kebabToCamel k) es)"
    by auto
  let ?acc = "obj_set acc (kebabToCamel k') (relationship_links (prop_of v' ''data''))"
  show ?case
  proof (cases "(k, v) = (k', v')")
    case True
    from relationships_loop_keep [OF ok fresh, of ?acc] True p nv Cons.prems(4) show ?thesis
      by (auto simp: get_prop_returns map_of_obj_set)
  next
    case False
    with Cons.prems(3) p have "(k, v) \<in> set es" by auto
    from Cons.IH [OF ok dist this Cons.prems(4), of ?acc] p nv show ?thesis
      by (simp add: get_prop_returns)
  qed
qed

lemma relationships_loop_returns:
  "returns (relationships_loop es acc) \<longleftrightarrow> (\<forall>(k, v) \<in> set es. \<not> nullish v)"
proof (induction es arbitrary: acc)
  case Nil
  then show ?case by simp
next
  case (Cons p es)
  obtain k v where p: "p = (k, v)" by (cases p)
  show ?case
  proof (cases "nullish v")
    case True
    with p show ?thesis by (auto simp: get_prop_throws)
  next
    case False
    with p Cons.IH show ?thesis by (simp add: get_prop_returns)
  qed
qed

lemma deserializeRelationships_returns:
  "returns (deserializeRelationships rels) \<longleftrightarrow> decodable_relationships rels"
proof (cases "truthy rels")
  case False
  then show ?thesis
    by (cases rels) (simp_all add: deserializeRelationships_def decodable_relationships_def)
next
  case True
  then obtain es where es: "object_entries rels = Inr es"
    using object_entries_truthy by blast
  show ?thesis
  proof (cases "relationships_loop es []")
    case (Inl e)
    with relationships_loop_returns [of es "[]"] True es show ?thesis
      by (simp add: deserializeRelationships_def decodable_relationships_def)
  next
    case (Inr res)
    with relationships_loop_returns [of es "[]"] True es show ?thesis
      by (simp add: deserializeRelationships_def decodable_relationships_def)
  qed
qed

lemma deserializeRelationships_result:
  "deserializeRelationships rels = Inr v \<Longrightarrow> v = JUndefined \<or> (\<exists>rm. v = JObj rm)"
  by (auto simp: deserializeRelationships_def split: if_splits sum.splits)

subsection \<open>Resources and envelopes\<close>

lemma flatten_attributes_returns: "\<exists>res. flatten_attributes a r = Inr res"
proof (cases "truthy a")
  case True
  then obtain es where "object_entries a = Inr es" using object_entries_truthy by blast
  with True show ?thesis by (simp add: flatten_attributes_def)
next
  case False
  then show ?thesis by (simp add: flatten_attributes_def)
qed

lemma deserializeResource_nullish: "nullish r \<Longrightarrow> deserializeResource r = Inl TypeError"
  by (simp add: deserializeResource_def get_prop_throws)

lemma deserializeResource_unfold:
  assumes "\<not> nullish r"
    and "flatten_attributes (prop_of r ''attributes'')
           [(''id'', prop_of r ''id''), (''type'', prop_of r ''type'')] = Inr result"
  shows "deserializeResource r =
     (case deserializeRelationships (prop_of r ''relationships'') of
        Inl e \<Rightarrow> Inl e
      | Inr relationships \<Rightarrow>
          Inr (JObj (if truthy relationships
                     then obj_set result ''relationships'' relationships
                     else result)))"
  using assms by (simp add: deserializeResource_def get_prop_returns)

lemma deserializeResource_returns:
  "returns (deserializeResource r) \<longleftrightarrow> decodable_resource r"
proof (cases "nullish r")
  case True
  then show ?thesis by (simp add: deserializeResource_nullish decodable_resource_def)
next
  case False
  obtain result where
    "flatten_attributes (prop_of r ''attributes'')
       [(''id'', prop_of r ''id''), (''type'', prop_of r ''type'')] = Inr result"
    using flatten_attributes_returns by blast
  from deserializeResource_unfold [OF False this]
    deserializeRelationships_returns [of "prop_of r ''relationships''"] False
  show ?thesis
    by (cases "deserializeRelationships (prop_of r ''relationships'')")
      (simp_all add: decodable_resource_def)
qed

lemma map_resources_returns:
  "returns (map_resources xs) \<longleftrightarrow> list_all decodable_resource xs"
proof (induction xs)
  case Nil
  then show ?case by simp
next
  case (Cons x xs)
  then show ?case
    using deserializeResource_returns [of x]
    by (cases "deserializeResource x"; cases "map_resources xs") simp_all
qed

lemma map_included_returns: "returns (map_included inc) \<longleftrightarrow> decodable_included inc"
proof (cases inc)
  case (JArr xs)
  then show ?thesis
    using map_resources_returns [of xs] by (cases "map_resources xs") simp_all
qed simp_all

lemma decode_data_returns: "returns (decode_data d) \<longleftrightarrow> decodable_data d"
proof (cases d)
  case (JArr xs)
  then show ?thesis
    using map_resources_returns [of xs] by (cases "map_resources xs") simp_all
qed (simp_all add: deserializeResource_returns)

lemma deserialize_returns: "returns (deserialize envelope) \<longleftrightarrow> decodable envelope"
proof (cases "nullish envelope")
  case True
  then show ?thesis by (simp add: deserialize_def decodable_def get_prop_throws)
next
  case False
  show ?thesis
  proof (cases "decode_data (prop_of envelope ''data'')")
    case (Inl e)
    with decode_data_returns [of "prop_of envelope ''data''"] False show ?thesis
      by (simp add: deserialize_def decodable_def get_prop_returns)
  next
    case (Inr decoded)
    with decode_data_returns [of "prop_of envelope ''data''"] False
      map_included_returns [of "prop_of envelope ''included''"]
    show ?thesis
      by (cases "map_included (prop_of envelope ''included'')")
        (simp_all add: deserialize_def decodable_def get_prop_returns)
  qed
qed

subsection \<open>Relationships of a decoded resource\<close>

lemma kebabToCamel_proto:
  assumes "wire_key k" and "k \<noteq> ''__proto__''"
  shows "kebabToCamel k \<noteq> ''__proto__''"
proof
  assume "kebabToCamel k = ''__proto__''"
  moreover have "kebabToCamel ''__proto__'' = ''__proto__''"
    by (simp add: char_defs)
  moreover have "wire_key ''__proto__''"
    by (simp add: wire_key_def char_defs)
  ultimately have "k = ''__proto__''"
    using kebabToCamel_inj [OF assms(1), of "''__proto__''"] by simp
  with assms(2) show False ..
qed

text \<open>
  Claim C4, as the code has it. Take a wire resource whose \<open>relationships\<close> is a map with
  distinct names in the wire convention and whose entries are objects. For every entry
  of it whose name is not \<open>__proto__\<close>, decoding the resource succeeds and produces a
  \<open>relationships\<close> map in which the entry's name, in its internal form, is present; it is
  bound to the empty list when the entry's \<open>data\<close> is \<open>null\<close>, and to the one-element
  list holding \<open>data\<close> when \<open>data\<close> is a single reference (neither \<open>null\<close> nor a list).
\<close>

theorem null_relationship_collapse:
  assumes rels: "prop_of r ''relationships'' = JObj rels"
    and names: "distinct (map fst rels)" "\<forall>(k', v') \<in> set rels. wire_key k'"
    and entries: "\<forall>(k', v') \<in> set rels. \<not> nullish v'"
    and mem: "(k, v) \<in> set rels"
    and name: "k \<noteq> ''__proto__''"
  shows "\<exists>props rm. deserializeResource r = Inr (JObj props)
           \<and> obj_get props ''relationships'' = JObj rm
           \<and> kebabToCamel k \<in> fst ` set rm
           \<and> (prop_of v ''data'' = JNull \<longrightarrow> obj_get rm (kebabToCamel k) = JArr [])
           \<and> (prop_of v ''data'' \<noteq> JNull \<and> \<not> isArray (prop_of v ''data'') \<longrightarrow>
                obj_get rm (kebabToCamel k) = JArr [prop_of v ''data''])"
proof -
  from rels have nn: "\<not> nullish r" by (auto simp: nullish_def)
  obtain result where fl:
    "flatten_attributes (prop_of r ''attributes'')
       [(''id'', prop_of r ''id''), (''type'', prop_of r ''type'')] = Inr result"
    using flatten_attributes_returns by blast
  have dist: "distinct (map (\<lambda>(k, v). kebabToCamel k) rels)"
    using names by (rule distinct_internal_keys)
  from names(2) mem have "wire_key k" by auto
  then have np: "kebabToCamel k \<noteq> ''__proto__''"
    using name by (rule kebabToCamel_proto)
  from relationships_loop_lookup [OF entries dist mem np, of "[]"]
  obtain rm where rm: "relationships_loop rels [] = Inr rm"
    "map_of rm (kebabToCamel k) = Some (relationship_links (prop_of v ''data''))"
    by blast
  from rm(2) have ne: "rm \<noteq> []" by auto
  with rm(1) have dr: "deserializeRelationships (JObj rels) = Inr (JObj rm)"
    by (simp add: deserializeRelationships_def)
  let ?props = "obj_set result ''relationships'' (JObj rm)"
  have "deserializeResource r = Inr (JObj ?props)"
    using deserializeResource_unfold [OF nn fl] dr rels by simp
  moreover have "obj_get ?props ''relationships'' = JObj rm"
    by (simp add: obj_get_obj_set)
  moreover note obj_get_present [OF rm(2)]
  ultimately show ?thesis
    by (auto simp: relationship_links_def)
qed

theorem null_relationship_collapse_witness:
  "\<exists>props rm. deserializeResource null_relationship_resource = Inr (JObj props)
     \<and> obj_get props ''relationships'' = JObj rm
     \<and> obj_get rm ''locations'' = JArr []
     \<and> obj_get rm ''primaryContact'' = JArr [JObj [(''id'', JStr ''9''), (''type'', JStr ''contacts'')]]"
proof -
  let ?rels = "[(''locations'', JObj [(''data'', JNull)]),
                (''primary-contact'',
                   JObj [(''data'', JObj [(''id'', JStr ''9''), (''type'', JStr ''contacts'')])])]"
  have a: "prop_of null_relationship_resource ''relationships'' = JObj ?rels"
    by (simp add: null_relationship_resource_def obj_get_def)
  have b: "distinct (map fst ?rels)" by simp
  have c: "\<forall>(k', v') \<in> set ?rels. wire_key k'"
    by (simp add: wire_key_def char_defs)
  have d: "\<forall>(k', v') \<in> set ?rels. \<not> nullish v'" by (simp add: nullish_def)
  have m1: "(''locations'', JObj [(''data'', JNull)]) \<in> set ?rels" by simp
  have m2: "(''primary-contact'',
               JObj [(''data'', JObj [(''id'', JStr ''9''), (''type'', JStr ''contacts'')])])
             \<in> set ?rels" by simp
  have n1: "''locations'' \<noteq> ''__proto__''" by simp
  have n2: "''primary-contact'' \<noteq> ''__proto__''" by simp
  from null_relationship_collapse [OF a b c d m1 n1] null_relationship_collapse [OF a b c d m2 n2]
  show ?thesis
    by (auto simp: obj_get_def char_defs)
qed

text \<open>
  The claim as stated fails for a relationship named \<open>__proto__\<close>: the assignment
  \<^verbatim>\<open>result['__proto__'] = []\<close> creates no property, so the name is absent; and when it
  is the only relationship, the decoded resource has no \<open>relationships\<close> map at all.
\<close>

theorem null_relationship_proto_absent:
  "prop_of proto_relationship_resource ''relationships''
     = JObj [(''__proto__'', JObj [(''data'', JNull)])]
   \<and> deserializeResource proto_relationship_resource
     = Inr (JObj [(''id'', JStr ''1''), (''type'', JStr ''organizations'')])
   \<and> \<not> has_key [(''id'', JStr ''1''), (''type'', JStr ''organizations'')] ''relationships''"
  by (simp add: proto_relationship_resource_def deserializeResource_def get_prop_def
      nullish_def obj_get_def flatten_attributes_def deserializeRelationships_def
      obj_set_def char_defs has_key_def)

subsection \<open>When the decoder throws\<close>

lemma obj_get_append_other:
  "k \<noteq> a \<Longrightarrow> obj_get (props @ [(a, v)]) k = obj_get props k"
  by (simp add: obj_get_def map_add_def split: option.splits)

lemma obj_get_append_new:
  "a \<notin> fst ` set props \<Longrightarrow> obj_get (props @ [(a, v)]) a = v \<and> obj_get props a = JUndefined"
proof -
  assume "a \<notin> fst ` set props"
  then have "map_of props a = None" by (simp add: map_of_eq_None_iff)
  then show ?thesis by (simp add: obj_get_def map_add_def)
qed

lemma missing_attributes_as_empty:
  assumes "''attributes'' \<notin> fst ` set props"
  shows "deserializeResource (JObj props) =
         deserializeResource (JObj (props @ [(''attributes'', JObj [])]))"
  using obj_get_append_new [OF assms, of "JObj []"]
  by (simp add: deserializeResource_def get_prop_def nullish_def obj_get_append_other
      flatten_attributes_def set_entries_def)

lemma deserializeResource_primitive:
  "deserializeResource (JStr s) = Inr (JObj [(''id'', JUndefined), (''type'', JUndefined)])"
  "deserializeResource (JNum n) = Inr (JObj [(''id'', JUndefined), (''type'', JUndefined)])"
  "deserializeResource (JBool b) = Inr (JObj [(''id'', JUndefined), (''type'', JUndefined)])"
  by (simp_all add: deserializeResource_def get_prop_def nullish_def flatten_attributes_def
      deserializeRelationships_def)

text \<open>
  Claim C5, as the code has it. The decoder treats a wire resource without an
  \<open>attributes\<close> map exactly like the same resource with an empty one. It throws exactly
  when it reads a property of \<open>null\<close> or \<open>undefined\<close> or when \<open>included\<close> is present
  without being a list: the envelope, its \<open>data\<close>, an element of the \<open>data\<close> list or of
  \<open>included\<close>, or an entry of a resource's \<open>relationships\<close> is \<open>null\<close> or \<open>undefined\<close>, or
  \<open>included\<close> is neither absent, \<open>null\<close> nor a list. So it throws when \<open>data\<close> is \<open>null\<close> or
  missing; a \<open>data\<close> that is a string, a number or a Boolean does not make it throw and
  decodes to an object whose \<open>id\<close> and \<open>type\<close> are undefined.
\<close>

theorem deserialize_throws_exactly:
  "(returns (deserialize envelope) \<longleftrightarrow> decodable envelope)
   \<and> (''attributes'' \<notin> fst ` set props \<longrightarrow>
        deserializeResource (JObj props) =
        deserializeResource (JObj (props @ [(''attributes'', JObj [])])))
   \<and> (nullish (prop_of envelope ''data'') \<longrightarrow> deserialize envelope = Inl TypeError)
   \<and> deserializeResource (JStr s) = Inr (JObj [(''id'', JUndefined), (''type'', JUndefined)])
   \<and> deserializeResource (JNum n) = Inr (JObj [(''id'', JUndefined), (''type'', JUndefined)])
   \<and> deserializeResource (JBool b) = Inr (JObj [(''id'', JUndefined), (''type'', JUndefined)])"
proof -
  have "deserialize envelope = Inl TypeError" if "nullish (prop_of envelope ''data'')"
  proof -
    from that have "\<not> decodable envelope"
      by (auto simp: decodable_def decodable_resource_def nullish_def)
    then have "\<not> returns (deserialize envelope)" by (simp add: deserialize_returns)
    then show ?thesis
      by (cases "deserialize envelope") (auto intro: js_exn.exhaust)
  qed
  then show ?thesis
    by (simp add: deserialize_returns missing_attributes_as_empty deserializeResource_primitive)
qed

theorem deserialize_throws_exactly_witness:
  "returns (deserialize (JObj [(''data'', no_attributes_resource)]))
   \<and> deserializeResource no_attributes_resource =
       deserializeResource
         (JObj [(''id'', JStr ''1''), (''type'', JStr ''organizations''), (''attributes'', JObj [])])
   \<and> deserialize (JObj [(''data'', JNull)]) = Inl TypeError"
  using deserialize_throws_exactly
      [of "JObj [(''data'', no_attributes_resource)]"
          "[(''id'', JStr ''1''), (''type'', JStr ''organizations'')]"]
    deserialize_throws_exactly [of "JObj [(''data'', JNull)]" "[]"]
  by (simp add: no_attributes_resource_def decodable_def decodable_resource_def
      decodable_relationships_def nullish_def obj_get_def)

text \<open>
  The claim as stated fails in both directions: a string as \<open>data\<close> is neither an object
  nor a list and is decoded without an exception, and an object as \<open>data\<close> makes the
  decoder throw when one of its relationship entries is \<open>null\<close>.
\<close>

theorem deserialize_string_data_returns:
  "\<not> isPlainObject (JStr ''x'') \<and> \<not> isArray (JStr ''x'')
   \<and> deserialize (JObj [(''data'', JStr ''x'')]) =
       Inr (JObj [(''data'', JObj [(''id'', JUndefined), (''type'', JUndefined)]),
                  (''meta'', JUndefined), (''included'', JUndefined)])"
  by (simp add: deserialize_def get_prop_def nullish_def obj_get_def deserializeResource_primitive
      deserializeMeta_def)

lemma deserialize_null_relationship_entry_throws:
  "deserialize (JObj [(''data'',
      JObj [(''id'', JStr ''1''), (''type'', JStr ''organizations''),
            (''relationships'', JObj [(''locations'', JNull)])])]) = Inl TypeError"
  by (simp add: deserialize_def get_prop_def nullish_def obj_get_def deserializeResource_def
      flatten_attributes_def deserializeRelationships_def)

section \<open>Properties of the query builder\<close>

lemma addParam_nullish: "nullish v \<Longrightarrow> addParam prefix v sp = Inr sp"
  by (auto simp: nullish_def)

lemma addParam_strip:
  "addParam prefix (strip_nullish v) sp = addParam prefix v sp"
  "addParam_entries prefix (strip_entries kvs) sp = addParam_entries prefix kvs sp"
  by (induction prefix v sp and prefix kvs sp rule: addParam_addParam_entries.induct)
    (auto simp: addParam_nullish split: sum.splits)

lemma strip_nullish_eq:
  "strip_nullish v = JUndefined \<longleftrightarrow> v = JUndefined"
  "strip_nullish v = JNull \<longleftrightarrow> v = JNull"
  by (cases v; simp)+

lemma buildQueryParams_loop_strip:
  "buildQueryParams_loop (strip_entries params) sp = buildQueryParams_loop params sp"
proof (induction params arbitrary: sp)
  case Nil
  then show ?case by simp
next
  case (Cons p params)
  obtain k v where p: "p = (k, v)" by (cases p)
  show ?case
    using Cons.IH p
    by (simp add: nullish_def strip_nullish_eq addParam_strip split: sum.splits)
qed

lemma buildQueryParams_loop_append:
  "buildQueryParams_loop (xs @ ys) sp =
     (case buildQueryParams_loop xs sp of
        Inl e \<Rightarrow> Inl e
      | Inr sp' \<Rightarrow> buildQueryParams_loop ys sp')"
  by (induction xs sp rule: buildQueryParams_loop.induct) (auto split: sum.splits)

lemma addParam_entries_append:
  "addParam_entries prefix (xs @ ys) sp =
     (case addParam_entries prefix xs sp of
        Inl e \<Rightarrow> Inl e
      | Inr sp' \<Rightarrow> addParam_entries prefix ys sp')"
  by (induction xs arbitrary: sp) (auto split: sum.splits)

lemma join_elements_length: "join_elements xs = Inr parts \<Longrightarrow> length parts = length xs"
  by (induction xs arbitrary: parts) (auto split: sum.splits if_splits)

lemma join_elements_nullish:
  "join_elements xs = Inr parts \<Longrightarrow> i < length xs \<Longrightarrow> nullish (xs ! i) \<Longrightarrow> parts ! i = []"
proof (induction xs arbitrary: parts i)
  case Nil
  then show ?case by simp
next
  case (Cons x xs)
  then show ?case
    by (cases i) (auto simp: nullish_def split: sum.splits if_splits)
qed

lemma join_elements_printed:
  "join_elements xs = Inr parts \<Longrightarrow> i < length xs \<Longrightarrow> \<not> nullish (xs ! i) \<Longrightarrow>
     js_String (xs ! i) = Inr (parts ! i)"
proof (induction xs arbitrary: parts i)
  case Nil
  then show ?case by simp
next
  case (Cons x xs)
  then show ?case
    by (cases i) (auto simp: nullish_def split: sum.splits if_splits)
qed

text \<open>
  Claim C6, as the code has it. A \<open>null\<close> or \<open>undefined\<close> value at the top level or inside
  a nested map, at any depth, contributes nothing: \<open>addParam\<close> returns at once on it,
  leaving the parameters as they are, and with or without these entries the builder
  gives the same result, be it the same query parameters or the same exception. An
  element of a list value is not skipped: the key of the list is emitted with the joined
  elements, one part for each element, in which the part of a \<open>null\<close> or \<open>undefined\<close>
  element is the empty string between its commas and the part of any other element is
  the element printed; the builder throws only when an element of a list cannot be
  printed.
\<close>

theorem buildQueryParams_skips_nullish_entries:
  "buildQueryParams (strip_entries params) = buildQueryParams params
   \<and> (nullish v \<longrightarrow> buildQueryParams (before @ [(key, v)] @ after) = buildQueryParams (before @ after))
   \<and> (nullish v \<longrightarrow>
        addParam prefix (JObj (before @ [(key, v)] @ after)) sp = addParam prefix (JObj (before @ after)) sp)
   \<and> (nullish v \<longrightarrow> addParam prefix v sp = Inr sp)
   \<and> (join_elements xs = Inr parts \<longrightarrow>
        addParam prefix (JArr xs) sp = Inr (searchParams_set sp prefix (join_comma parts))
        \<and> length parts = length xs
        \<and> (\<forall>i<length xs. nullish (xs ! i) \<longrightarrow> parts ! i = [])
        \<and> (\<forall>i<length xs. \<not> nullish (xs ! i) \<longrightarrow> js_String (xs ! i) = Inr (parts ! i)))
   \<and> (join_elements xs = Inl e \<longrightarrow> addParam prefix (JArr xs) sp = Inl e)
   \<and> buildQueryParams [(''ids'', JArr [JNum 1, JNull, JNum 3])] = Inr [(''ids'', ''1,,3'')]"
proof -
  have a: "buildQueryParams (before @ [(key, v)] @ after) = buildQueryParams (before @ after)"
    if "nullish v"
    using that
    by (auto simp: buildQueryParams_def buildQueryParams_loop_append nullish_def
        split: sum.splits)
  have b: "addParam prefix (JObj (before @ [(key, v)] @ after)) sp
             = addParam prefix (JObj (before @ after)) sp"
    if "nullish v"
    using that by (simp add: addParam_entries_append addParam_nullish split: sum.splits)
  have c: "buildQueryParams [(''ids'', JArr [JNum 1, JNull, JNum 3])] = Inr [(''ids'', ''1,,3'')]"
    by (simp add: buildQueryParams_def camelToKebab_def char_defs array_join_def nullish_def
        show_int_def show_nat.simps digit_char_def)
  have d: "addParam prefix (JArr xs) sp = Inr (searchParams_set sp prefix (join_comma parts))
        \<and> length parts = length xs
        \<and> (\<forall>i<length xs. nullish (xs ! i) \<longrightarrow> parts ! i = [])
        \<and> (\<forall>i<length xs. \<not> nullish (xs ! i) \<longrightarrow> js_String (xs ! i) = Inr (parts ! i))"
    if "join_elements xs = Inr parts"
    using that join_elements_length [OF that] join_elements_nullish [OF that]
      join_elements_printed [OF that]
    by (simp add: array_join_def)
  have e: "addParam prefix (JArr xs) sp = Inl e" if "join_elements xs = Inl e"
    using that by (simp add: array_join_def)
  have f: "buildQueryParams (strip_entries params) = buildQueryParams params"
    by (simp add: buildQueryParams_def buildQueryParams_loop_strip)
  from a b c d e f addParam_nullish [of v prefix sp] show ?thesis
    by blast
qed

theorem buildQueryParams_skips_nullish_entries_witness:
  "buildQueryParams [(''sort'', JStr ''name''), (''include'', JNull), (''page'', JUndefined)]
     = buildQueryParams [(''sort'', JStr ''name''), (''page'', JUndefined)]
   \<and> buildQueryParams [(''sort'', JStr ''name''), (''page'', JUndefined)]
     = buildQueryParams [(''sort'', JStr ''name'')]
   \<and> addParam ''filter'' (JObj [(''name'', JStr ''Acme''), (''organizationTypeId'', JNull)]) []
     = addParam ''filter'' (JObj [(''name'', JStr ''Acme'')]) []
   \<and> addParam ''ids'' (JArr [JStr ''a'', JNull]) [] = Inr [(''ids'', ''a,'')]
   \<and> addParam ''ids'' (JArr [JObj [(''toString'', JNum 1)]]) [] = Inl TypeError"
proof -
  have j1: "join_elements [JStr ''a'', JNull] = Inr [''a'', '''']"
    by simp
  have j2: "join_elements [JObj [(''toString'', JNum 1)]] = Inl TypeError"
    by (simp add: has_key_def)
  have n1: "nullish JNull" and n2: "nullish JUndefined"
    by (simp_all add: nullish_def)
  note t1 = buildQueryParams_skips_nullish_entries
      [where v = JNull and before = "[(''sort'', JStr ''name'')]" and key = "''include''"
         and after = "[(''page'', JUndefined)]", THEN conjunct2, THEN conjunct1, rule_format, OF n1]
  note t2 = buildQueryParams_skips_nullish_entries
      [where v = JUndefined and before = "[(''sort'', JStr ''name'')]" and key = "''page''"
         and after = "[]", THEN conjunct2, THEN conjunct1, rule_format, OF n2]
  note t3 = buildQueryParams_skips_nullish_entries
      [where v = JNull and before = "[(''name'', JStr ''Acme'')]" and key = "''organizationTypeId''"
         and after = "[]" and prefix = "''filter''" and sp = "[]",
       THEN conjunct2, THEN conjunct2, THEN conjunct1, rule_format, OF n1]
  note t4 = buildQueryParams_skips_nullish_entries
      [where xs = "[JStr ''a'', JNull]" and parts = "[''a'', '''']" and prefix = "''ids''"
         and sp = "[]",
       THEN conjunct2, THEN conjunct2, THEN conjunct2, THEN conjunct2, THEN conjunct1,
       rule_format, OF j1, THEN conjunct1]
  note t5 = buildQueryParams_skips_nullish_entries
      [where xs = "[JObj [(''toString'', JNum 1)]]" and e = TypeError and prefix = "''ids''"
         and sp = "[]",
       THEN conjunct2, THEN conjunct2, THEN conjunct2, THEN conjunct2, THEN conjunct2,
       THEN conjunct1, rule_format, OF j2]
  from t1 t2 t3 t4 t5 show ?thesis
    by simp
qed

text \<open>
  The claim as stated fails for list elements: with a \<open>null\<close> element the list's value is
  \<open>1,,3\<close>, without it \<open>1,3\<close>; and a list holding only \<open>null\<close> still emits its key.
\<close>

theorem buildQueryParams_null_list_element:
  "buildQueryParams [(''ids'', JArr [JNum 1, JNull, JNum 3])] = Inr [(''ids'', ''1,,3'')]
   \<and> buildQueryParams [(''ids'', JArr [JNum 1, JNum 3])] = Inr [(''ids'', ''1,3'')]
   \<and> buildQueryParams [(''ids'', JArr [JNull])] = Inr [(''ids'', '''')]"
  by (simp add: buildQueryParams_def camelToKebab_def char_defs array_join_def nullish_def
      show_int_def show_nat.simps digit_char_def)

lemma buildQueryParams_test_examples:
  "buildQueryParams [(''filter'', JObj [(''name'', JStr ''Acme''), (''organizationTypeId'', JNum 42)])]
     = Inr [(''filter[name]'', ''Acme''), (''filter[organization-type-id]'', ''42'')]"
  "buildQueryParams [(''page'', JObj [(''size'', JNum 50), (''number'', JNum 2)])]
     = Inr [(''page[size]'', ''50''), (''page[number]'', ''2'')]"
  by (simp_all add: buildQueryParams_def camelToKebab_def char_defs param_key_def
      show_int_def show_nat.simps digit_char_def)

subsection \<open>Filter parameters\<close>

lemma set_entries_append:
  "set_entries (xs @ ys) result = set_entries ys (set_entries xs result)"
  by (simp add: set_entries_def)

lemma filter_entry_expand:
  "filter_entry key v result = set_entries (expand_entry (key, v)) result"
  by (simp add: filter_entry_def expand_entry_def set_entries_def set_operator_def
      operator_names_def nullish_def obj_set_proto)

lemma buildFilterParams_loop_expand:
  "buildFilterParams_loop entries result =
     set_entries (concat (map expand_entry entries)) result"
  by (induction entries result rule: buildFilterParams_loop.induct)
    (simp_all add: set_entries_append filter_entry_expand, simp add: set_entries_def)

lemma operator_key_not_proto: "key @ ''['' @ op @ '']'' \<noteq> ''__proto__''"
proof
  assume "key @ ''['' @ op @ '']'' = ''__proto__''"
  then have "last (key @ ''['' @ op @ '']'') = last ''__proto__''"
    by (rule arg_cong)
  then show False
    by simp
qed

lemma expand_entry_not_proto: "(k, v) \<in> set (expand_entry e) \<Longrightarrow> k \<noteq> ''__proto__''"
  by (cases e) (auto simp: expand_entry_def operator_key_not_proto split: if_splits)

lemma set_entries_lookup:
  "\<forall>(k, v) \<in> set es. k \<noteq> ''__proto__'' \<Longrightarrow>
     map_of (set_entries es r) x
       = (case map_of (rev es) x of Some v \<Rightarrow> Some v | None \<Rightarrow> map_of r x)"
proof (induction es arbitrary: r)
  case Nil
  then show ?case by (simp add: set_entries_def)
next
  case (Cons p es)
  obtain k v where p: "p = (k, v)" by (cases p)
  from Cons.prems p have k: "k \<noteq> ''__proto__''" and rest: "\<forall>(k, v) \<in> set es. k \<noteq> ''__proto__''"
    by auto
  have "set_entries (p # es) r = set_entries es (obj_set r k v)"
    using p by (simp add: set_entries_def)
  with Cons.IH [OF rest, of "obj_set r k v"] p k show ?case
    by (auto simp: map_add_def map_of_obj_set split: option.splits)
qed

lemma set_entries_keys_distinct:
  "distinct (map fst r) \<Longrightarrow> distinct (map fst (set_entries es r))"
proof (induction es arbitrary: r)
  case Nil
  then show ?case by (simp add: set_entries_def)
next
  case (Cons p es)
  obtain k v where p: "p = (k, v)" by (cases p)
  have "set_entries (p # es) r = set_entries es (obj_set r k v)"
    using p by (simp add: set_entries_def)
  with Cons.IH [OF distinct_obj_set [OF Cons.prems, of k v]] show ?case
    by simp
qed

lemma obj_set_fresh:
  "k \<notin> fst ` set r \<Longrightarrow> k \<noteq> ''__proto__'' \<Longrightarrow> array_index k = None \<Longrightarrow>
     obj_set r k v = r @ [(k, v)]"
  by (simp add: obj_set_def has_key_def)

lemma set_entries_distinct:
  "distinct (map fst (result @ es)) \<Longrightarrow>
   \<forall>(k, v) \<in> set es. k \<noteq> ''__proto__'' \<and> array_index k = None \<Longrightarrow>
     set_entries es result = result @ es"
proof (induction es arbitrary: result)
  case Nil
  then show ?case by (simp add: set_entries_def)
next
  case (Cons e es)
  obtain k v where e: "e = (k, v)" by (cases e)
  from Cons.prems e have fresh: "k \<notin> fst ` set result" and k: "k \<noteq> ''__proto__''"
      "array_index k = None"
    by auto
  from Cons.prems e have "distinct (map fst ((result @ [(k, v)]) @ es))"
      "\<forall>(k, v) \<in> set es. k \<noteq> ''__proto__'' \<and> array_index k = None"
    by auto
  from Cons.IH [OF this] fresh k e show ?case
    by (simp add: set_entries_def obj_set_fresh)
qed

text \<open>
  Claim C8, as the code has it. For every filter map the result holds what the entries
  expand to, written entry after entry: an operator object (an object holding any of
  \<open>gt\<close>, \<open>gte\<close>, \<open>lt\<close>, \<open>lte\<close>) gives one key \<open>field[op]\<close> for each of the four operators
  whose value is not undefined; an entry whose value is \<open>null\<close> or \<open>undefined\<close> is
  skipped; every other entry is passed through with its field name unchanged and not
  case-converted, except an entry named \<open>__proto__\<close>, which leaves no key. Each key of
  the result is bound to the value last written to it, and no key occurs twice. When
  the keys written are distinct and none is an array index, the result lists these
  bindings in the order written. The absent filter gives the empty map, and the example
  with \<open>createdAt\<close> gives \<open>createdAt[gt]\<close> and \<open>createdAt[lt]\<close>.
\<close>

theorem buildFilterParams_expands:
  "buildFilterParams None = []
   \<and> map_of (buildFilterParams (Some entries)) = last_write (concat (map expand_entry entries))
   \<and> distinct (map fst (buildFilterParams (Some entries)))
   \<and> (distinct (map fst (concat (map expand_entry entries)))
        \<and> (\<forall>k \<in> set (map fst (concat (map expand_entry entries))). array_index k = None)
        \<longrightarrow> buildFilterParams (Some entries) = concat (map expand_entry entries))
   \<and> (nullish v \<longrightarrow> expand_entry (key, v) = [])
   \<and> (\<not> nullish v \<and> \<not> is_operator_object v \<and> key \<noteq> ''__proto__'' \<longrightarrow>
        expand_entry (key, v) = [(key, v)])
   \<and> (\<not> is_operator_object v \<longrightarrow> expand_entry (''__proto__'', v) = [])
   \<and> (is_operator_object v \<longrightarrow>
        expand_entry (key, v) =
          map (\<lambda>op. (key @ ''['' @ op @ '']'', prop_of v op))
            (filter (\<lambda>op. prop_of v op \<noteq> JUndefined) [''gt'', ''gte'', ''lt'', ''lte'']))
   \<and> buildFilterParams
        (Some [(''createdAt'', JObj [(''gt'', JStr ''2024-01-01''), (''lt'', JStr ''2024-12-31'')])])
      = [(''createdAt[gt]'', JStr ''2024-01-01''), (''createdAt[lt]'', JStr ''2024-12-31'')]"
proof -
  let ?writes = "concat (map expand_entry entries)"
  have a: "buildFilterParams (Some entries) = set_entries ?writes []"
    by (simp add: buildFilterParams_def buildFilterParams_loop_expand)
  have np: "\<forall>(k, v) \<in> set ?writes. k \<noteq> ''__proto__''"
    using expand_entry_not_proto by auto
  have b: "map_of (buildFilterParams (Some entries)) = last_write ?writes"
    unfolding a last_write_def
    by (rule ext) (simp add: set_entries_lookup [OF np] split: option.splits)
  have c: "distinct (map fst (buildFilterParams (Some entries)))"
    unfolding a by (rule set_entries_keys_distinct) simp
  have d: "buildFilterParams (Some entries) = ?writes"
    if "distinct (map fst ?writes) \<and> (\<forall>k \<in> set (map fst ?writes). array_index k = None)"
  proof -
    from that np have "\<forall>(k, v) \<in> set ?writes. k \<noteq> ''__proto__'' \<and> array_index k = None"
      by force
    with that set_entries_distinct [of "[]" ?writes] a show ?thesis
      by simp
  qed
  have e: "buildFilterParams
        (Some [(''createdAt'', JObj [(''gt'', JStr ''2024-01-01''), (''lt'', JStr ''2024-12-31'')])])
      = [(''createdAt[gt]'', JStr ''2024-01-01''), (''createdAt[lt]'', JStr ''2024-12-31'')]"
    by (simp add: buildFilterParams_def filter_entry_def set_operator_def has_key_def obj_get_def
        obj_set_def)
  have f: "\<not> nullish v" if "is_operator_object v"
    using that by (cases v) (simp_all add: nullish_def)
  have g: "nullish v \<longrightarrow> expand_entry (key, v) = []"
    by (simp add: expand_entry_def)
  have h: "\<not> nullish v \<and> \<not> is_operator_object v \<and> key \<noteq> ''__proto__'' \<longrightarrow>
        expand_entry (key, v) = [(key, v)]"
    by (simp add: expand_entry_def)
  have i: "\<not> is_operator_object v \<longrightarrow> expand_entry (''__proto__'', v) = []"
    by (simp add: expand_entry_def)
  have j: "is_operator_object v \<longrightarrow>
        expand_entry (key, v) =
          map (\<lambda>op. (key @ ''['' @ op @ '']'', prop_of v op))
            (filter (\<lambda>op. prop_of v op \<noteq> JUndefined) [''gt'', ''gte'', ''lt'', ''lte''])"
    using f by (simp add: expand_entry_def operator_names_def)
  have k: "buildFilterParams None = []"
    by (simp add: buildFilterParams_def)
  from b c d e g h i j k show ?thesis
    by blast
qed

theorem buildFilterParams_expands_witness:
  "buildFilterParams (Some [(''name'', JStr ''Acme''), (''organizationTypeId'', JNum 42)])
     = [(''name'', JStr ''Acme''), (''organizationTypeId'', JNum 42)]
   \<and> expand_entry (''type'', JUndefined) = []
   \<and> expand_entry (''name'', JStr ''Acme'') = [(''name'', JStr ''Acme'')]
   \<and> expand_entry (''__proto__'', JNum 5) = []
   \<and> expand_entry (''createdAt'', JObj [(''gt'', JStr ''2024-01-01'')])
       = [(''createdAt[gt]'', JStr ''2024-01-01'')]"
proof -
  let ?entries = "[(''name'', JStr ''Acme''), (''organizationTypeId'', JNum 42)]"
  have ex: "concat (map expand_entry ?entries) = ?entries"
    by (simp add: expand_entry_def nullish_def)
  have hyp: "distinct (map fst (concat (map expand_entry ?entries)))
        \<and> (\<forall>k \<in> set (map fst (concat (map expand_entry ?entries))). array_index k = None)"
    unfolding ex by simp
  have op: "is_operator_object (JObj [(''gt'', JStr ''2024-01-01'')])"
    by (simp add: has_key_def)
  note t = buildFilterParams_expands [where entries = ?entries, THEN conjunct2, THEN conjunct2,
      THEN conjunct2]
  have w1: "buildFilterParams (Some ?entries) = ?entries"
    using t [THEN conjunct1] hyp ex by simp
  have w2: "expand_entry (''type'', JUndefined) = []"
    using buildFilterParams_expands [where v = JUndefined and key = "''type''"]
    by (simp add: nullish_def)
  have w3: "expand_entry (''name'', JStr ''Acme'') = [(''name'', JStr ''Acme'')]"
    using buildFilterParams_expands [where v = "JStr ''Acme''" and key = "''name''"]
    by (simp add: nullish_def)
  have w4: "expand_entry (''__proto__'', JNum 5) = []"
    using buildFilterParams_expands [where v = "JNum 5"]
    by simp
  have w5: "expand_entry (''createdAt'', JObj [(''gt'', JStr ''2024-01-01'')])
       = [(''createdAt[gt]'', JStr ''2024-01-01'')]"
    using buildFilterParams_expands
      [where v = "JObj [(''gt'', JStr ''2024-01-01'')]" and key = "''createdAt''"] op
    by (simp add: obj_get_def has_key_def)
  from w1 w2 w3 w4 w5 show ?thesis
    by simp
qed

text \<open>
  The claim as stated fails for an entry without a value: it is neither an operator
  object nor passed through. An operator that is present with the value \<open>undefined\<close>
  gives no key either, and an entry named \<open>__proto__\<close> is not passed through.
\<close>

theorem buildFilterParams_drops_null_entry:
  "buildFilterParams (Some [(''name'', JStr ''Acme''), (''type'', JNull)]) = [(''name'', JStr ''Acme'')]
   \<and> buildFilterParams (Some [(''createdAt'', JObj [(''gt'', JUndefined)])]) = []
   \<and> buildFilterParams (Some [(''__proto__'', JNum 5)]) = []"
  by (simp add: buildFilterParams_def filter_entry_def set_operator_def has_key_def obj_get_def
      obj_set_def)

end
